theory Spec2Isabelle
  imports Complex_Main "HOL-Library.Multiset"
begin

section \<open>EAGLE: explicit alternative genome likelihood evaluator (eagle.c)\<close>

subsection \<open>Doubles\<close>

text \<open>
  A C \<^verbatim>\<open>double\<close> is modelled as an exact real number or one of the three special
  values of IEEE 754. Finite arithmetic is exact: rounding, overflow of a finite result
  to an infinity and the sign of zero are not modelled. The special values follow the
  IEEE rules (\<open>inf - inf\<close> is NaN, \<open>exp(-inf)\<close> is 0, \<open>log(0)\<close> is \<open>-inf\<close>, every
  comparison with NaN is false).
\<close>

datatype double = Num real | PosInf | NegInf | NaN

fun dneg :: "double \<Rightarrow> double" where
  "dneg (Num a) = Num (- a)"
| "dneg PosInf = NegInf"
| "dneg NegInf = PosInf"
| "dneg NaN = NaN"

fun dadd :: "double \<Rightarrow> double \<Rightarrow> double" where
  "dadd (Num a) (Num b) = Num (a + b)"
| "dadd NaN _ = NaN"
| "dadd _ NaN = NaN"
| "dadd PosInf NegInf = NaN"
| "dadd NegInf PosInf = NaN"
| "dadd PosInf _ = PosInf"
| "dadd _ PosInf = PosInf"
| "dadd NegInf _ = NegInf"
| "dadd _ NegInf = NegInf"

definition dsub :: "double \<Rightarrow> double \<Rightarrow> double" where
  "dsub a b = dadd a (dneg b)"

fun dlt :: "double \<Rightarrow> double \<Rightarrow> bool" where
  "dlt (Num a) (Num b) = (a < b)"
| "dlt NaN _ = False"
| "dlt _ NaN = False"
| "dlt NegInf NegInf = False"
| "dlt NegInf _ = True"
| "dlt PosInf _ = False"
| "dlt (Num a) PosInf = True"
| "dlt (Num a) NegInf = False"

definition dgt :: "double \<Rightarrow> double \<Rightarrow> bool" where
  "dgt a b = dlt b a"

fun dexp :: "double \<Rightarrow> double" where
  "dexp (Num a) = Num (exp a)"
| "dexp PosInf = PosInf"
| "dexp NegInf = Num 0"
| "dexp NaN = NaN"

fun dlog :: "double \<Rightarrow> double" where
  "dlog (Num a) = (if 0 < a then Num (ln a) else if a = 0 then NegInf else NaN)"
| "dlog PosInf = PosInf"
| "dlog NegInf = NaN"
| "dlog NaN = NaN"

fun dmul :: "double \<Rightarrow> double \<Rightarrow> double" where
  "dmul (Num a) (Num b) = Num (a * b)"
| "dmul NaN _ = NaN"
| "dmul _ NaN = NaN"
| "dmul PosInf (Num b) = (if b = 0 then NaN else if 0 < b then PosInf else NegInf)"
| "dmul NegInf (Num b) = (if b = 0 then NaN else if 0 < b then NegInf else PosInf)"
| "dmul (Num a) PosInf = (if a = 0 then NaN else if 0 < a then PosInf else NegInf)"
| "dmul (Num a) NegInf = (if a = 0 then NaN else if 0 < a then NegInf else PosInf)"
| "dmul PosInf PosInf = PosInf"
| "dmul PosInf NegInf = NegInf"
| "dmul NegInf PosInf = NegInf"
| "dmul NegInf NegInf = PosInf"

fun ddiv :: "double \<Rightarrow> double \<Rightarrow> double" where
  "ddiv (Num a) (Num b) =
     (if b \<noteq> 0 then Num (a / b) else if a = 0 then NaN else if 0 < a then PosInf else NegInf)"
| "ddiv NaN _ = NaN"
| "ddiv _ NaN = NaN"
| "ddiv (Num a) PosInf = Num 0"
| "ddiv (Num a) NegInf = Num 0"
| "ddiv PosInf (Num b) = (if 0 \<le> b then PosInf else NegInf)"
| "ddiv NegInf (Num b) = (if 0 \<le> b then NegInf else PosInf)"
| "ddiv PosInf PosInf = NaN"
| "ddiv PosInf NegInf = NaN"
| "ddiv NegInf PosInf = NaN"
| "ddiv NegInf NegInf = NaN"

text \<open>The C comparison \<^verbatim>\<open>==\<close> on doubles.\<close>

fun deq :: "double \<Rightarrow> double \<Rightarrow> bool" where
  "deq (Num a) (Num b) = (a = b)"
| "deq PosInf PosInf = True"
| "deq NegInf NegInf = True"
| "deq _ _ = False"

text \<open>
  The constants of the source: \<^verbatim>\<open>M_LOG10E\<close> and \<^verbatim>\<open>M_LN10\<close> of \<^verbatim>\<open>math.h\<close>, and
  \<^verbatim>\<open>#define ALPHA 1.3\<close>, \<^verbatim>\<open>#define OMEGA 1.0e-4\<close>, \<^verbatim>\<open>#define REFPRIOR log(0.5)\<close>,
  \<^verbatim>\<open>LG3\<close>, \<^verbatim>\<open>LG50\<close>, \<^verbatim>\<open>LG10\<close>, \<^verbatim>\<open>LG90\<close>, \<^verbatim>\<open>LGALPHA\<close>, \<^verbatim>\<open>LGOMEGA\<close>, \<^verbatim>\<open>LG1_OMEGA\<close>.
  The macros \<^verbatim>\<open>M_1_LOG10E\<close> (\<open>1.0/M_LOG10E\<close>) and \<^verbatim>\<open>M_1_LN10\<close> (\<open>1.0/M_LN10\<close>) have no
  parentheses: \<open>x * M_1_LN10\<close> is \<open>(x * 1.0) / M_LN10\<close>.
\<close>

definition M_LOG10E :: double where "M_LOG10E = Num (1 / ln 10)"
definition M_LN10 :: double where "M_LN10 = Num (ln 10)"
definition REFPRIOR :: double where "REFPRIOR = dlog (Num (1 / 2))"
definition LG3 :: double where "LG3 = dlog (Num 3)"
definition LG50 :: double where "LG50 = dlog (Num (1 / 2))"
definition LG10 :: double where "LG10 = dlog (Num (1 / 10))"
definition LG90 :: double where "LG90 = dlog (Num (9 / 10))"
definition LGALPHA :: double where "LGALPHA = dlog (Num (13 / 10))"
definition LGOMEGA :: double where "LGOMEGA = dlog (Num (1 / 10000))"
definition LG1_OMEGA :: double where "LG1_OMEGA = dlog (dsub (Num 1) (Num (1 / 10000)))"

definition times_M_1_LOG10E :: "double \<Rightarrow> double" where
  "times_M_1_LOG10E x = ddiv (dmul x (Num 1)) M_LOG10E"

definition times_M_1_LN10 :: "double \<Rightarrow> double" where
  "times_M_1_LN10 x = ddiv (dmul x (Num 1)) M_LN10"

subsection \<open>LogMath: \<^verbatim>\<open>log_add_exp\<close> and \<^verbatim>\<open>log_sum_exp\<close>\<close>

text \<open>
  \<^verbatim>\<open>double max_exp = a > b ? a : b;
  return log(exp(a - max_exp) + exp(b - max_exp)) + max_exp;\<close>
\<close>

definition log_add_exp :: "double \<Rightarrow> double \<Rightarrow> double" where
  "log_add_exp a b =
     (let max_exp = (if dgt a b then a else b)
      in dadd (dlog (dadd (dexp (dsub a max_exp)) (dexp (dsub b max_exp)))) max_exp)"

text \<open>\<^verbatim>\<open>sum(a, size)\<close>: \<^verbatim>\<open>while (--size >= 0) s += a[size];\<close>, from the last entry down.\<close>

definition dsum :: "double list \<Rightarrow> double" where
  "dsum a = foldl dadd (Num 0) (rev a)"

text \<open>
  \<^verbatim>\<open>log_sum_exp(a, size)\<close>: the array is a list and \<open>size\<close> its length. The first
  loop starts from \<open>a[0]\<close>, which does not exist in an empty array: that read is
  outside the array and the model returns \<open>None\<close>.
\<close>

fun max_loop :: "double \<Rightarrow> double list \<Rightarrow> double" where
  "max_loop max_exp [] = max_exp"
| "max_loop max_exp (x # xs) = max_loop (if dgt x max_exp then x else max_exp) xs"

fun exp_sum_loop :: "double \<Rightarrow> double \<Rightarrow> double list \<Rightarrow> double" where
  "exp_sum_loop max_exp s [] = s"
| "exp_sum_loop max_exp s (x # xs) = exp_sum_loop max_exp (dadd s (dexp (dsub x max_exp))) xs"

definition log_sum_exp :: "double list \<Rightarrow> double option" where
  "log_sum_exp a =
     (case a of
        [] \<Rightarrow> None
      | a0 # rest \<Rightarrow>
          (let max_exp = max_loop a0 rest;
               s = exp_sum_loop max_exp (Num 0) a
           in Some (dadd (dlog s) max_exp)))"

subsection \<open>LogMath in rounded arithmetic\<close>







definition dle :: "double \<Rightarrow> double \<Rightarrow> bool" where
  "dle a b = (dlt a b \<or> deq a b)"









subsection \<open>ReadModel: probability matrix and windowed probability\<close>

text \<open>
  \<^verbatim>\<open>static int seqnt_map[26]\<close> as \<^verbatim>\<open>main\<close> leaves it before any read is evaluated:
  \<^verbatim>\<open>memset(seqnt_map, 4, sizeof seqnt_map)\<close> sets every byte to 4, so every entry
  is \<open>0x04040404\<close>; then the entries of A, T, G, C and N are set to 0, 1, 2, 3 and 4.
  The table is indexed by \<^verbatim>\<open>c - 'A'\<close>; an index outside \<open>0..25\<close> is a read outside
  the table (\<open>None\<close>).
\<close>

definition seqnt_map :: "char \<Rightarrow> int option" where
  "seqnt_map c =
     (let i = int (of_char c :: nat) - 65 in
      if i < 0 \<or> 26 \<le> i then None
      else if c = CHR ''A'' then Some 0
      else if c = CHR ''T'' then Some 1
      else if c = CHR ''G'' then Some 2
      else if c = CHR ''C'' then Some 3
      else if c = CHR ''N'' then Some 4
      else Some 67372036)"

text \<open>
  \<^verbatim>\<open>calc_prob(matrix, read_length, seq, seq_length, pos, baseline)\<close>. The matrix is the
  flat array of \<open>5 * read_length\<close> doubles, \<open>seq_length\<close> is the length of \<open>seq\<close>, C
  \<^verbatim>\<open>int\<close>s are unbounded integers. A read outside the matrix is \<open>None\<close>.
  \<^verbatim>\<open>for (b = pos; b < n; ++b) {
      if (b < 0) continue;
      if (b >= seq_length) break;
      probability += matrix[5 * (b - pos) + seqnt_map[seq[b] - 'A']];
      if (probability < baseline - 10) break;
  }\<close>
\<close>

function calc_prob_loop ::
  "double list \<Rightarrow> string \<Rightarrow> int \<Rightarrow> double \<Rightarrow> int \<Rightarrow> int \<Rightarrow> double \<Rightarrow> double option" where
  "calc_prob_loop matrix seq pos baseline n b probability =
     (if b < n then
        (if b < 0 then calc_prob_loop matrix seq pos baseline n (b + 1) probability
         else if int (length seq) \<le> b then Some probability
         else
           (case seqnt_map (seq ! nat b) of
              None \<Rightarrow> None
            | Some col \<Rightarrow>
                (let idx = 5 * (b - pos) + col in
                 if idx < 0 \<or> int (length matrix) \<le> idx then None
                 else
                   (let probability' = dadd probability (matrix ! nat idx) in
                    if dlt probability' (dsub baseline (Num 10)) then Some probability'
                    else calc_prob_loop matrix seq pos baseline n (b + 1) probability'))))
      else Some probability)"
  by pat_completeness auto
termination
  by (relation "measure (\<lambda>(matrix, seq, pos, baseline, n, b, probability). nat (n - b))") auto

definition calc_prob :: "double list \<Rightarrow> int \<Rightarrow> string \<Rightarrow> int \<Rightarrow> double \<Rightarrow> double option" where
  "calc_prob matrix read_length seq pos baseline =
     calc_prob_loop matrix seq pos baseline (pos + read_length) pos (Num 0)"

text \<open>
  \<^verbatim>\<open>calc_prob_distrib\<close>:
  \<^verbatim>\<open>for (i = n1; i < n2; ++i) {
      if (i + read_length < 0) continue;
      if (i >= seq_length) break;
      probability = probability == 0 ? calc_prob(.., i, baseline)
                                     : log_add_exp(probability, calc_prob(.., i, baseline));
      if (probability > baseline) baseline = probability;
  }\<close>
\<close>

function calc_prob_distrib_loop ::
  "double list \<Rightarrow> int \<Rightarrow> string \<Rightarrow> int \<Rightarrow> int \<Rightarrow> double \<Rightarrow> double \<Rightarrow> double option" where
  "calc_prob_distrib_loop matrix read_length seq n2 i probability baseline =
     (if i < n2 then
        (if i + read_length < 0
         then calc_prob_distrib_loop matrix read_length seq n2 (i + 1) probability baseline
         else if int (length seq) \<le> i then Some probability
         else
           (case calc_prob matrix read_length seq i baseline of
              None \<Rightarrow> None
            | Some p \<Rightarrow>
                (let probability' = (if deq probability (Num 0) then p else log_add_exp probability p);
                     baseline' = (if dgt probability' baseline then probability' else baseline)
                 in calc_prob_distrib_loop matrix read_length seq n2 (i + 1) probability' baseline')))
      else Some probability)"
  by pat_completeness auto
termination
  by (relation "measure (\<lambda>(matrix, read_length, seq, n2, i, probability, baseline). nat (n2 - i))") auto

definition calc_prob_distrib :: "double list \<Rightarrow> int \<Rightarrow> string \<Rightarrow> int \<Rightarrow> double option" where
  "calc_prob_distrib matrix read_length seq pos =
     (case calc_prob matrix read_length seq pos (Num (- 1000)) of
        None \<Rightarrow> None
      | Some baseline \<Rightarrow>
          calc_prob_distrib_loop matrix read_length seq (pos + read_length) (pos - read_length)
            (Num 0) baseline)"

subsection \<open>Data model\<close>

text \<open>\<^verbatim>\<open>Variant\<close>: \<open>chr\<close>, the 1-based \<open>pos\<close>, \<open>ref\<close> and \<open>alt\<close>.\<close>

record variant =
  v_chr :: string
  v_pos :: int
  v_ref :: string
  v_alt :: string

subsection \<open>AltBuilder: \<^verbatim>\<open>construct_altseq\<close>\<close>

text \<open>
  The sequence is the list of its \<open>altseq_length\<close> characters; the buffer that holds it
  has one more byte, the terminator. \<^verbatim>\<open>size_t\<close> is 64 bits wide, so
  \<^verbatim>\<open>size_t pos = curr->pos - 1 + offset\<close> is taken modulo \<open>2^64\<close>.

  The loop of the \<open>delta == 0\<close> branch, \<^verbatim>\<open>altseq[j+pos] = var_alt[j]\<close>: a write to index
  \<open>altseq_length\<close> lands on the terminator and leaves the sequence as it is, a write
  past it is outside the buffer (\<open>None\<close>).
\<close>

fun overwrite_loop :: "string \<Rightarrow> int \<Rightarrow> int \<Rightarrow> string \<Rightarrow> string option" where
  "overwrite_loop altseq pos j [] = Some altseq"
| "overwrite_loop altseq pos j (c # cs) =
     (let idx = (j + pos) mod 2 ^ 64 in
      if idx < int (length altseq) then overwrite_loop (altseq[nat idx := c]) pos (j + 1) cs
      else if idx = int (length altseq) then overwrite_loop altseq pos (j + 1) cs
      else None)"

text \<open>
  The indel branch copies \<open>altseq[0..pos)\<close>, then \<open>var_alt\<close>, then
  \<open>altseq_length - pos - var_ref_length\<close> bytes from \<open>altseq + pos + var_ref_length\<close>.
  That count is a \<^verbatim>\<open>size_t\<close>: when \<open>pos + var_ref_length\<close> exceeds \<open>altseq_length\<close> it
  wraps around and \<^verbatim>\<open>memcpy\<close> runs off the buffer (\<open>None\<close>).
\<close>

definition splice :: "string \<Rightarrow> int \<Rightarrow> nat \<Rightarrow> string \<Rightarrow> string option" where
  "splice altseq pos var_ref_length var_alt =
     (if pos + int var_ref_length \<le> int (length altseq)
      then Some (take (nat pos) altseq @ var_alt @ drop (nat pos + var_ref_length) altseq)
      else None)"

definition starts_with_dash :: "string \<Rightarrow> bool" where
  "starts_with_dash s = (case s of [] \<Rightarrow> False | c # _ \<Rightarrow> c = CHR ''-'')"

fun construct_altseq_loop :: "string \<Rightarrow> int \<Rightarrow> variant list \<Rightarrow> string option" where
  "construct_altseq_loop altseq offset [] = Some altseq"
| "construct_altseq_loop altseq offset (cur # rest) =
     (let pos0 = (v_pos cur - 1 + offset) mod 2 ^ 64;
          pos = (if starts_with_dash (v_ref cur) then (pos0 + 1) mod 2 ^ 64 else pos0);
          var_ref = (if starts_with_dash (v_ref cur) then [] else v_ref cur);
          var_alt = (if starts_with_dash (v_ref cur) then v_alt cur
                     else if starts_with_dash (v_alt cur) then [] else v_alt cur);
          delta = int (length var_alt) - int (length var_ref)
      in case (if delta = 0 then overwrite_loop altseq pos 0 var_alt
               else splice altseq pos (length var_ref) var_alt) of
           None \<Rightarrow> None
         | Some altseq' \<Rightarrow> construct_altseq_loop altseq' (offset + delta) rest)"

definition construct_altseq :: "string \<Rightarrow> variant list \<Rightarrow> string option" where
  "construct_altseq refseq var_combo = construct_altseq_loop refseq 0 var_combo"


subsection \<open>Command line: \<^verbatim>\<open>parse_num\<close> and the option loop of \<^verbatim>\<open>main\<close>\<close>

text \<open>
  \<^verbatim>\<open>strtol(str, &end, 0)\<close> of the C library, for a 64-bit \<^verbatim>\<open>long\<close>: leading white
  space, an optional sign, base 16 after \<open>0x\<close> or \<open>0X\<close> and a hexadecimal digit, base 8
  after \<open>0\<close>, base 10 otherwise; a value out of range is clamped. The result is the
  value and the number of characters up to \<open>end\<close> (0 when nothing was converted, where
  \<open>end == str\<close>).
\<close>

definition isspace :: "char \<Rightarrow> bool" where
  "isspace c = (c \<in> set [CHR '' '', CHR 0x09, CHR 0x0A, CHR 0x0B, CHR 0x0C, CHR 0x0D])"

definition digit_val :: "char \<Rightarrow> nat" where
  "digit_val c =
     (let n = (of_char c :: nat) in
      if 48 \<le> n \<and> n \<le> 57 then n - 48
      else if 97 \<le> n \<and> n \<le> 122 then n - 87
      else if 65 \<le> n \<and> n \<le> 90 then n - 55
      else 36)"

definition strtol :: "string \<Rightarrow> int \<times> nat" where
  "strtol str =
     (let s1 = dropWhile isspace str;
          neg = (case s1 of [] \<Rightarrow> False | c # _ \<Rightarrow> c = CHR ''-'');
          s2 = (case s1 of [] \<Rightarrow> [] | c # t \<Rightarrow> if c = CHR ''-'' \<or> c = CHR ''+'' then t else s1);
          hex = (case s2 of
                   z # x # h # _ \<Rightarrow> z = CHR ''0'' \<and> (x = CHR ''x'' \<or> x = CHR ''X'') \<and> digit_val h < 16
                 | _ \<Rightarrow> False);
          base = (if hex then 16 else if take 1 s2 = ''0'' then 8 else 10);
          s3 = (if hex then drop 2 s2 else s2);
          ds = takeWhile (\<lambda>c. digit_val c < base) s3;
          v = foldl (\<lambda>a c. a * int base + int (digit_val c)) 0 ds
      in if ds = [] then (0, 0)
         else (if neg then (if 2 ^ 63 < v then - (2 ^ 63) else - v)
               else (if 2 ^ 63 - 1 < v then 2 ^ 63 - 1 else v),
               length str - length s3 + length ds))"

text \<open>The conversion of a \<^verbatim>\<open>long\<close> to \<^verbatim>\<open>int\<close> keeps the low 32 bits.\<close>

definition long_to_int :: "int \<Rightarrow> int" where
  "long_to_int v = (v + 2 ^ 31) mod 2 ^ 32 - 2 ^ 31"

text \<open>
  How the program ends before it processes anything: \<^verbatim>\<open>exit_err\<close> (a diagnostic, then
  exit) or \<^verbatim>\<open>exit_usage\<close> (the usage text, then exit). Both macros are declared in
  \<^verbatim>\<open>eagle.h\<close>; the model records which one is called.
\<close>

datatype exit = Exit_err | Exit_usage

text \<open>
  \<^verbatim>\<open>int num = strtol(str, &end, 0);
  if (end != str && *end != '\0') { exit_err(..); }
  return num;\<close>
\<close>

definition parse_num :: "string \<Rightarrow> exit + int" where
  "parse_num str =
     (case strtol str of
        (num, n) \<Rightarrow> if n \<noteq> 0 \<and> drop n str \<noteq> [] then Inl Exit_err else Inr (long_to_int num))"

record config =
  vcf_file :: "string option"
  bam_file :: "string option"
  fa_file :: "string option"
  out_file :: "string option"
  numproc :: int
  distlim :: int
  maxh :: int
  mvh :: bool
  hetbias :: double
  pao :: bool
  debug :: bool

definition defaults :: config where
  "defaults = \<lparr>vcf_file = None, bam_file = None, fa_file = None, out_file = None,
     numproc = 1, distlim = 10, maxh = 1024, mvh = False, hetbias = Num (1 / 2),
     pao = False, debug = False\<rparr>"

text \<open>
  One result of \<^verbatim>\<open>getopt_long\<close>: a long flag (\<open>--mvh\<close>, \<open>--pao\<close>, \<open>--debug\<close>), for which
  it stores 1 in the variable and returns 0, or an option character with its argument
  (\<open>?\<close> for an option it does not know).
\<close>

datatype getopt = Flag_mvh | Flag_pao | Flag_debug | Opt char string

definition apply_opt :: "config \<Rightarrow> getopt \<Rightarrow> exit + config" where
  "apply_opt cfg opt =
     (case opt of
        Flag_mvh \<Rightarrow> Inr (cfg\<lparr>mvh := True\<rparr>)
      | Flag_pao \<Rightarrow> Inr (cfg\<lparr>pao := True\<rparr>)
      | Flag_debug \<Rightarrow> Inr (cfg\<lparr>debug := True\<rparr>)
      | Opt c optarg \<Rightarrow>
          if c = CHR ''v'' then Inr (cfg\<lparr>vcf_file := Some optarg\<rparr>)
          else if c = CHR ''a'' then Inr (cfg\<lparr>bam_file := Some optarg\<rparr>)
          else if c = CHR ''r'' then Inr (cfg\<lparr>fa_file := Some optarg\<rparr>)
          else if c = CHR ''o'' then Inr (cfg\<lparr>out_file := Some optarg\<rparr>)
          else if c = CHR ''t'' then
            (case parse_num optarg of Inl e \<Rightarrow> Inl e | Inr n \<Rightarrow> Inr (cfg\<lparr>numproc := n\<rparr>))
          else if c = CHR ''n'' then
            (case parse_num optarg of Inl e \<Rightarrow> Inl e | Inr n \<Rightarrow> Inr (cfg\<lparr>distlim := n\<rparr>))
          else if c = CHR ''b'' then
            (case parse_num optarg of Inl e \<Rightarrow> Inl e | Inr n \<Rightarrow> Inr (cfg\<lparr>hetbias := Num (of_int n)\<rparr>))
          else if c = CHR ''m'' then
            (case parse_num optarg of Inl e \<Rightarrow> Inl e | Inr n \<Rightarrow> Inr (cfg\<lparr>maxh := n\<rparr>))
          else Inl Exit_usage)"

fun option_loop :: "config \<Rightarrow> getopt list \<Rightarrow> exit + config" where
  "option_loop cfg [] = Inr cfg"
| "option_loop cfg (opt # opts) =
     (case apply_opt cfg opt of Inl e \<Rightarrow> Inl e | Inr cfg' \<Rightarrow> option_loop cfg' opts)"

text \<open>
  After the loop: the three required files, then
  \<^verbatim>\<open>if (numproc < 1) numproc = 1;
  if (distlim < 0) distlim = 0;
  if (hetbias < 0 || hetbias > 1) hetbias = 0.5;
  if (maxh < 0) maxh = 1024;\<close>
\<close>

definition check_options :: "config \<Rightarrow> exit + config" where
  "check_options cfg =
     (if vcf_file cfg = None then Inl Exit_usage
      else if bam_file cfg = None then Inl Exit_usage
      else if fa_file cfg = None then Inl Exit_usage
      else Inr (cfg\<lparr>
        numproc := (if numproc cfg < 1 then 1 else numproc cfg),
        distlim := (if distlim cfg < 0 then 0 else distlim cfg),
        hetbias := (if dlt (hetbias cfg) (Num 0) \<or> dgt (hetbias cfg) (Num 1)
                    then Num (1 / 2) else hetbias cfg),
        maxh := (if maxh cfg < 0 then 1024 else maxh cfg)\<rparr>))"

definition main_options :: "getopt list \<Rightarrow> exit + config" where
  "main_options opts =
     (case option_loop defaults opts of Inl e \<Rightarrow> Inl e | Inr cfg \<Rightarrow> check_options cfg)"


subsection \<open>Combination enumeration: \<^verbatim>\<open>combinations\<close> and \<^verbatim>\<open>powerset\<close>\<close>

text \<open>
  A combination is recorded as a token: one character \<^verbatim>\<open>c[i] + '\t' + 1\<close> for each
  index (the conversion to \<^verbatim>\<open>char\<close> keeps the low 8 bits), then a tab.
  \<^verbatim>\<open>strcat\<close> appends the token up to its first NUL character.
\<close>

definition token :: "nat list \<Rightarrow> string" where
  "token c = takeWhile (\<lambda>ch. ch \<noteq> CHR 0x00) (map (\<lambda>ci. char_of (ci + 10)) c @ [CHR 0x09])"

text \<open>
  The carry of the next-combination step:
  \<^verbatim>\<open>while ((i >= 0 && i < k) && (c[i] >= n - k + 1 + i)) { --i; ++c[i]; }\<close>
  When \<open>i\<close> becomes \<open>-1\<close> the source increments \<open>c[-1]\<close>, the \<^verbatim>\<open>int\<close> below the
  array; the model leaves the array as it is there.
\<close>

function carry_loop :: "nat \<Rightarrow> nat \<Rightarrow> nat list \<Rightarrow> int \<Rightarrow> nat list \<times> int" where
  "carry_loop k n c i =
     (if 0 \<le> i \<and> i < int k \<and> int n - int k + 1 + i \<le> int (c ! nat i)
      then carry_loop k n (if 0 \<le> i - 1 then c[nat (i - 1) := c ! nat (i - 1) + 1] else c) (i - 1)
      else (c, i))"
  by pat_completeness auto
termination
  by (relation "measure (\<lambda>(k, n, c, i). nat (i + 1))") auto

declare carry_loop.simps [simp del]

text \<open>\<^verbatim>\<open>for (i = i + 1; i < k; ++i) c[i] = c[i - 1] + 1;\<close> for a start \<open>i \<ge> 1\<close>.\<close>

function refill :: "nat \<Rightarrow> nat list \<Rightarrow> nat \<Rightarrow> nat list" where
  "refill k c i = (if i < k then refill k (c[i := c ! (i - 1) + 1]) (i + 1) else c)"
  by pat_completeness auto
termination
  by (relation "measure (\<lambda>(k, c, i). k - i)") auto

declare refill.simps [simp del]

text \<open>
  The \<^verbatim>\<open>while (1)\<close> loop of \<^verbatim>\<open>combinations\<close>: record \<open>c\<close>, count it, step to the next
  combination, leave when \<^verbatim>\<open>c[0] > n - k\<close>. A loop that does not end has the value
  \<open>None\<close>. (The branch \<open>i < 0\<close> after the test would read \<open>c[-1]\<close>.)
\<close>

partial_function (option) combinations_loop ::
  "nat \<Rightarrow> nat \<Rightarrow> nat list \<Rightarrow> string \<Rightarrow> int \<Rightarrow> (string \<times> int) option" where
  "combinations_loop k n c output ncombos =
     (case carry_loop k n (c[k - 1 := c ! (k - 1) + 1]) (int k - 1) of
        (c', i) \<Rightarrow>
          if int n - int k < int (c' ! 0) then Some (output @ token c, ncombos + 1)
          else if i < 0 then None
          else combinations_loop k n (refill k c' (nat i + 1)) (output @ token c) (ncombos + 1))"

declare combinations_loop.simps [code]

text \<open>
  \<^verbatim>\<open>combinations(&output, k, n, &ncombos)\<close>, starting from \<open>c = (0, .., k-1)\<close>. The
  source calls it with \<open>1 \<le> k\<close> only; with \<open>k = 0\<close> it would index an empty array.
\<close>

definition combinations :: "string \<Rightarrow> nat \<Rightarrow> nat \<Rightarrow> int \<Rightarrow> (string \<times> int) option" where
  "combinations output k n ncombos =
     (if k = 0 then None else combinations_loop k n [0..<k] output ncombos)"

text \<open>
  \<^verbatim>\<open>for (k = 2; k <= n - 1; ++k) {
      combinations(&combo, k, n, ncombos);
      if (*ncombos - n - 1 >= maxh) break;
  }\<close>
\<close>

function powerset_loop :: "config \<Rightarrow> nat \<Rightarrow> nat \<Rightarrow> string \<Rightarrow> int \<Rightarrow> (string \<times> int) option" where
  "powerset_loop cfg n k combo ncombos =
     (if int k \<le> int n - 1 then
        (case combinations combo k n ncombos of
           None \<Rightarrow> None
         | Some (combo', ncombos') \<Rightarrow>
             if maxh cfg \<le> ncombos' - int n - 1 then Some (combo', ncombos')
             else powerset_loop cfg n (k + 1) combo' ncombos')
      else Some (combo, ncombos))"
  by pat_completeness auto
termination
  by (relation "measure (\<lambda>(cfg, n, k, combo, ncombos). n - k)") auto

declare powerset_loop.simps [simp del]

text \<open>
  \<^verbatim>\<open>powerset(n, &ncombos)\<close>; \<open>ncombos\<close> is 0 at the call. The globals set from the
  command line (\<open>maxh\<close> here) are read from the configuration.
\<close>

definition powerset :: "config \<Rightarrow> nat \<Rightarrow> (string \<times> int) option" where
  "powerset cfg n =
     (case combinations [] 1 n 0 of
        None \<Rightarrow> None
      | Some (combo, ncombos) \<Rightarrow>
          if 1 < n then
            (case combinations combo n n ncombos of
               None \<Rightarrow> None
             | Some (combo', ncombos') \<Rightarrow> powerset_loop cfg n 2 combo' ncombos')
          else Some (combo, ncombos))"

subsection \<open>Grouper: the first part of \<^verbatim>\<open>process_variants\<close>\<close>

text \<open>
  The test that extends the current set by \<open>varlist[j]\<close>, next to \<open>j < nvariants\<close>:
  \<^verbatim>\<open>distlim > 0 && strcmp(varlist[j]->chr, varlist[j - 1]->chr) == 0
    && abs(varlist[j]->pos - varlist[j - 1]->pos) <= distlim\<close>
  Positions are unbounded integers in the model.
\<close>

definition nearby :: "config \<Rightarrow> variant \<Rightarrow> variant \<Rightarrow> bool" where
  "nearby cfg prev v =
     (0 < distlim cfg \<and> v_chr v = v_chr prev \<and> \<bar>v_pos v - v_pos prev\<bar> \<le> distlim cfg)"

text \<open>
  The two nested loops that cut the variant list into sets: \<open>cur\<close> is the set under
  construction, its last entry is \<open>varlist[j - 1]\<close>.
\<close>

fun group_loop :: "config \<Rightarrow> variant list \<Rightarrow> variant list \<Rightarrow> variant list list" where
  "group_loop cfg cur [] = [cur]"
| "group_loop cfg cur (v # vs) =
     (if nearby cfg (last cur) v then group_loop cfg (cur @ [v]) vs
      else cur # group_loop cfg [v] vs)"

fun group_sets :: "config \<Rightarrow> variant list \<Rightarrow> variant list list" where
  "group_sets cfg [] = []"
| "group_sets cfg (v # vs) = group_loop cfg [v] vs"

text \<open>\<^verbatim>\<open>vector_del(a, i)\<close> for \<open>i\<close> inside the vector: the entries before and after \<open>i\<close>.\<close>

definition vector_del :: "'a list \<Rightarrow> nat \<Rightarrow> 'a list" where
  "vector_del a i = take i a @ drop (Suc i) a"

text \<open>
  The loop over one set, with the duplicates made so far and the flag:
  \<^verbatim>\<open>for (j = 0; j < var_set[i]->size - 1; ++j) {
      if (curr->pos == next->pos) {
          flag = 1;
          Vector *dup = vector_dup(var_set[i]);
          vector_del(var_set[i], j);
          vector_del(dup, j + 1);
          var_set[nsets + n++] = dup;
      }
  }\<close>
\<close>

function split_inner ::
  "variant list \<Rightarrow> nat \<Rightarrow> variant list list \<Rightarrow> bool \<Rightarrow> variant list \<times> variant list list \<times> bool" where
  "split_inner s j dups flag =
     (if j + 1 < length s then
        (if v_pos (s ! j) = v_pos (s ! (j + 1))
         then split_inner (vector_del s j) (j + 1) (dups @ [vector_del s (j + 1)]) True
         else split_inner s (j + 1) dups flag)
      else (s, dups, flag))"
  by pat_completeness auto
termination
  by (relation "measure (\<lambda>(s, j, dups, flag). length s - j)") (auto simp: vector_del_def)

declare split_inner.simps [simp del]

text \<open>
  One pass of the \<^verbatim>\<open>for\<close> loop over the sets that exist when the pass starts: the
  sets as the pass leaves them, the duplicates in the order they were made, and the
  flag.
\<close>

fun split_pass :: "variant list list \<Rightarrow> variant list list \<times> variant list list \<times> bool" where
  "split_pass [] = ([], [], False)"
| "split_pass (s # ss) =
     (case (if length s = 1 then (s, [], False) else split_inner s 0 [] False) of
        (s', d, f) \<Rightarrow>
          (case split_pass ss of
             (ss', ds, fs) \<Rightarrow> (s' # ss', d @ ds, f \<or> fs)))"


text \<open>
  A pass does not change the number of sets it started with, and it raises the flag
  only together with a duplicate: this is what ends the loop below.
\<close>

lemma split_inner_length:
  "split_inner s j dups flag = (s', dups', flag') \<Longrightarrow>
     (flag' \<and> \<not> flag \<longrightarrow> length dups < length dups') \<and> length dups \<le> length dups'"
proof (induction s j dups flag rule: split_inner.induct)
  case (1 s j dups flag)
  show ?case
  proof (cases "j + 1 < length s")
    case False
    then show ?thesis using "1.prems" by (simp add: split_inner.simps[of s j])
  next
    case True
    show ?thesis
    proof (cases "v_pos (s ! j) = v_pos (s ! (j + 1))")
      case eq: True
      then have "split_inner (vector_del s j) (j + 1) (dups @ [vector_del s (j + 1)]) True = (s', dups', flag')"
        using True "1.prems" by (simp add: split_inner.simps[of s j])
      from "1.IH"(1)[OF True eq this] show ?thesis by simp
    next
      case neq: False
      then have "split_inner s (j + 1) dups flag = (s', dups', flag')"
        using True "1.prems" by (simp add: split_inner.simps[of s j])
      from "1.IH"(2)[OF True neq this] show ?thesis by simp
    qed
  qed
qed

lemma split_pass_length:
  "split_pass sets = (sets', dups, flag) \<Longrightarrow>
     length sets' = length sets \<and> (flag \<longrightarrow> dups \<noteq> [])"
proof (induction sets arbitrary: sets' dups flag)
  case Nil
  then show ?case by simp
next
  case (Cons s ss)
  obtain s1 d f where a: "(if length s = 1 then (s, [], False) else split_inner s 0 [] False) = (s1, d, f)"
    by (metis prod_cases3)
  obtain ss1 ds fs where b: "split_pass ss = (ss1, ds, fs)" by (metis prod_cases3)
  have r: "sets' = s1 # ss1" "dups = d @ ds" "flag = (f \<or> fs)"
    using Cons.prems a b by simp_all
  have "f \<longrightarrow> d \<noteq> []" using a split_inner_length[of s 0 "[]" False s1 d f] by (auto split: if_splits)
  then show ?case using Cons.IH[OF b] r by auto
qed

text \<open>
  The loop over the passes. \<^verbatim>\<open>var_set\<close> has room for \<open>cap\<close> sets (\<open>2 * nvariants\<close>);
  the duplicates of a pass are stored behind the \<open>nsets\<close> sets in use, and a store
  past the end of \<^verbatim>\<open>var_set\<close> is outside the array (\<open>None\<close>).
  \<^verbatim>\<open>int flag = 1;
  while (flag) { flag = 0; size_t n = 0; for (..) {..} nsets += n; }\<close>
\<close>

function split_loop :: "nat \<Rightarrow> variant list list \<Rightarrow> variant list list option" where
  "split_loop cap sets =
     (case split_pass sets of
        (sets', dups, flag) \<Rightarrow>
          if cap < length sets + length dups then None
          else if flag then split_loop cap (sets' @ dups)
          else Some (sets' @ dups))"
  by pat_completeness auto
termination
proof (relation "measure (\<lambda>(cap, sets). cap - length sets)", goal_cases)
  case 1
  show ?case by simp
next
  case (2 cap sets sets' x dups flag)
  then have "length sets' = length sets \<and> dups \<noteq> []"
    using split_pass_length[of sets sets' dups flag] by simp
  then show ?case using 2 by (cases dups) auto
qed

declare split_loop.simps [simp del]

text \<open>The hypothesis sets that \<^verbatim>\<open>process_variants\<close> hands to the workers.\<close>

definition group_variants :: "config \<Rightarrow> variant list \<Rightarrow> variant list list option" where
  "group_variants cfg varlist = split_loop (2 * length varlist) (group_sets cfg varlist)"


subsection \<open>Reads\<close>

text \<open>
  \<^verbatim>\<open>Read\<close> as \<^verbatim>\<open>fetch_reads\<close> fills it: \<open>qseq\<close> holds the \<open>length\<close> bases and \<open>qual\<close>
  one value per base; \<open>multimap\<close> is the XA tag, with the type character in front, when
  the record has one. The fields \<open>tid\<close>, \<open>n_cigar\<close>, \<open>cigar_opchr\<close> and \<open>cigar_oplen\<close> are
  only printed in debug mode and are left out.
\<close>

record read =
  r_name :: string
  r_chr :: string
  r_pos :: int
  r_qseq :: string
  r_qual :: "double list"
  r_flag :: string
  r_inferred_length :: int
  r_multimap :: "string option"

definition r_length :: "read \<Rightarrow> int" where
  "r_length r = int (length (r_qseq r))"

text \<open>
  The flag tokens of a read:
  \<^verbatim>\<open>for (s = flag; sscanf(s, "%63[^,]%n", token, &n) == 1; s += n + 1) {
      if (strcmp("UNMAP", token) == 0) is_unmap = 1;
      else if (strcmp("REVERSE", token) == 0) is_reverse = 1;
      else if (strcmp("SECONDARY", token) == 0 || strcmp("SUPPLEMENTARY", token) == 0)
          is_secondary = 1;
      if (*(s + n) != ',') break;
  }\<close>
\<close>

function parse_flag :: "string \<Rightarrow> bool \<times> bool \<times> bool \<Rightarrow> bool \<times> bool \<times> bool" where
  "parse_flag s (is_unmap, is_reverse, is_secondary) =
     (let token = take 63 (takeWhile (\<lambda>c. c \<noteq> CHR '','') s) in
      if token = [] then (is_unmap, is_reverse, is_secondary)
      else
        (let flags =
               (if token = ''UNMAP'' then (True, is_reverse, is_secondary)
                else if token = ''REVERSE'' then (is_unmap, True, is_secondary)
                else if token = ''SECONDARY'' \<or> token = ''SUPPLEMENTARY''
                  then (is_unmap, is_reverse, True)
                else (is_unmap, is_reverse, is_secondary))
         in case drop (length token) s of
              [] \<Rightarrow> flags
            | c # rest \<Rightarrow> if c = CHR '','' then parse_flag rest flags else flags))"
  by pat_completeness auto
termination
proof (relation "measure (\<lambda>(s, f). length s)", goal_cases)
  case 1
  show ?case by simp
next
  case (2 s is_unmap is_reverse is_secondary token flags c rest)
  then have "length (drop (length token) s) = Suc (length rest)" by simp
  then show ?case by simp
qed

declare parse_flag.simps [simp del]

definition read_flags :: "read \<Rightarrow> bool \<times> bool \<times> bool" where
  "read_flags r = parse_flag (r_flag r) (False, False, False)"

text \<open>
  The per-base log-probabilities of a read:
  \<^verbatim>\<open>if (qual[i] == 0) qual[i] = -0.01;
  double a = qual[i] * M_1_LOG10E;
  is_match[i] = log(1 - exp(a));
  no_match[i] = a - LG3;\<close>
\<close>

definition base_a :: "double \<Rightarrow> double" where
  "base_a q = times_M_1_LOG10E (if deq q (Num 0) then Num (- (1 / 100)) else q)"

definition is_match_of :: "double list \<Rightarrow> double list" where
  "is_match_of qual = map (\<lambda>q. dlog (dsub (Num 1) (dexp (base_a q)))) qual"

definition no_match_of :: "double list \<Rightarrow> double list" where
  "no_match_of qual = map (\<lambda>q. dsub (base_a q) LG3) qual"

text \<open>
  \<^verbatim>\<open>set_prob_matrix\<close> on the flat array of \<open>5 * read_length\<close> doubles (not initialised;
  every entry is written before it is read):
  \<^verbatim>\<open>for (b = 0; b < read_length; ++b) {
      for (i = 0; i < 5; ++i) matrix[5 * b + i] = no_match[b];
      matrix[5 * b + seqnt_map[seq[b] - 'A']] = is_match[b];
  }\<close>
  The three arrays are walked together; a write outside the matrix is \<open>None\<close>.
\<close>

fun set_prob_matrix_loop ::
  "double list \<Rightarrow> nat \<Rightarrow> string \<Rightarrow> double list \<Rightarrow> double list \<Rightarrow> double list option" where
  "set_prob_matrix_loop matrix b (c # seq) (im # is_match) (nm # no_match) =
     (let matrix1 = fold (\<lambda>i m. m[5 * b + i := nm]) [0..<5] matrix in
      case seqnt_map c of
        None \<Rightarrow> None
      | Some col \<Rightarrow>
          (let idx = 5 * int b + col in
           if idx < 0 \<or> int (length matrix1) \<le> idx then None
           else set_prob_matrix_loop (matrix1[nat idx := im]) (b + 1) seq is_match no_match))"
| "set_prob_matrix_loop matrix b [] _ _ = Some matrix"
| "set_prob_matrix_loop matrix b _ _ _ = None"

definition set_prob_matrix :: "string \<Rightarrow> double list \<Rightarrow> double list \<Rightarrow> double list option" where
  "set_prob_matrix seq is_match no_match =
     set_prob_matrix_loop (replicate (5 * length seq) NaN) 0 seq is_match no_match"

text \<open>
  The probability that the read comes from elsewhere:
  \<^verbatim>\<open>double a = sum(is_match, length);
  for (..) delta[i] = no_match[i] - is_match[i];
  elsewhere = log_add_exp(a, a + log_sum_exp(delta, length))
              - (LGALPHA * (length - inferred_length));\<close>
\<close>

definition elsewhere_of :: "double list \<Rightarrow> double list \<Rightarrow> int \<Rightarrow> double option" where
  "elsewhere_of is_match no_match length_diff =
     (let a = dsum is_match;
          delta = map (\<lambda>(nm, im). dsub nm im) (zip no_match is_match)
      in case log_sum_exp delta of
           None \<Rightarrow> None
         | Some l \<Rightarrow>
             Some (dsub (log_add_exp a (dadd a l)) (dmul LGALPHA (Num (of_int length_diff)))))"

text \<open>
  \<^verbatim>\<open>static int compl_map[26]\<close> as \<^verbatim>\<open>main\<close> leaves it (zero but for A, T, C, G and N),
  and \<^verbatim>\<open>reverse_compl\<close>: \<^verbatim>\<open>b[i++] = compl_map[a[size] - 'A']\<close> from the last base down.
\<close>

definition compl_map :: "char \<Rightarrow> char option" where
  "compl_map c =
     (let i = int (of_char c :: nat) - 65 in
      if i < 0 \<or> 26 \<le> i then None
      else if c = CHR ''A'' then Some CHR ''T''
      else if c = CHR ''T'' then Some CHR ''A''
      else if c = CHR ''C'' then Some CHR ''G''
      else if c = CHR ''G'' then Some CHR ''C''
      else if c = CHR ''N'' then Some CHR ''N''
      else Some CHR 0x00)"

fun reverse_compl_loop :: "string \<Rightarrow> string option" where
  "reverse_compl_loop [] = Some []"
| "reverse_compl_loop (c # cs) =
     (case compl_map c of
        None \<Rightarrow> None
      | Some c' \<Rightarrow> (case reverse_compl_loop cs of None \<Rightarrow> None | Some cs' \<Rightarrow> Some (c' # cs')))"

definition reverse_compl :: "string \<Rightarrow> string option" where
  "reverse_compl a = reverse_compl_loop (rev a)"


subsection \<open>Evaluator: one read against one combination\<close>

text \<open>
  \<^verbatim>\<open>fetch_refseq(name, fa_file)\<close> is a lookup in the reference (the cache in front of
  the FASTA index is not modelled): a contig name gives the upper-cased sequence, and
  a missing contig ends the program (\<open>None\<close>).
\<close>

type_synonym refs = "string \<Rightarrow> string option"

text \<open>The \<^verbatim>\<open>%d\<close> of \<^verbatim>\<open>sscanf\<close>: white space, an optional sign, decimal digits.\<close>

definition scan_int :: "string \<Rightarrow> (int \<times> string) option" where
  "scan_int s =
     (let s1 = dropWhile isspace s;
          neg = (case s1 of [] \<Rightarrow> False | c # _ \<Rightarrow> c = CHR ''-'');
          s2 = (case s1 of [] \<Rightarrow> [] | c # t \<Rightarrow> if c = CHR ''-'' \<or> c = CHR ''+'' then t else s1);
          ds = takeWhile (\<lambda>c. digit_val c < 10) s2;
          v = foldl (\<lambda>a c. a * 10 + int (digit_val c)) 0 ds
      in if ds = [] then None else Some (if neg then - v else v, drop (length ds) s2))"

text \<open>
  \<^verbatim>\<open>sscanf(s, "%63[^,],%d,%*[^;]%n", xa_chr, &xa_pos, &n) == 2\<close>: \<open>None\<close> when fewer than
  two values are stored. \<open>n\<close> is stored only when the rest of the format matches as
  well (a comma and at least one character other than \<open>;\<close>).
\<close>

definition scan_xa :: "string \<Rightarrow> (string \<times> int \<times> nat option) option" where
  "scan_xa s =
     (let xa_chr = take 63 (takeWhile (\<lambda>c. c \<noteq> CHR '','') s) in
      if xa_chr = [] then None
      else
        (case drop (length xa_chr) s of
           [] \<Rightarrow> None
         | c # s1 \<Rightarrow>
             if c \<noteq> CHR '','' then None
             else
               (case scan_int s1 of
                  None \<Rightarrow> None
                | Some (xa_pos, s2) \<Rightarrow>
                    (case s2 of
                       [] \<Rightarrow> Some (xa_chr, xa_pos, None)
                     | c2 # s3 \<Rightarrow>
                         if c2 \<noteq> CHR '','' then Some (xa_chr, xa_pos, None)
                         else
                           (let skipped = takeWhile (\<lambda>c. c \<noteq> CHR '';'') s3 in
                            if skipped = [] then Some (xa_chr, xa_pos, None)
                            else Some (xa_chr, xa_pos,
                                       Some (length s - length s3 + length skipped)))))))"

text \<open>
  The loop over the XA entries of a read. \<open>n\<close> is a local variable without an initial
  value: when \<^verbatim>\<open>sscanf\<close> returns 2 without storing it, the loop goes on with the value
  of the round before, and reads an indeterminate value in the first round (\<open>None\<close>).
  A read past the terminator of the string is \<open>None\<close> as well.
  \<^verbatim>\<open>for (s = multimap + 1; sscanf(..) == 2; s += n + 1) {
      if (*(s + n) != ';') break;
      Fasta *f = fetch_refseq(xa_chr, fa_file);
      ..
      if ((xa_pos < 0 && !is_reverse) || (xa_pos > 0 && is_reverse)) { .. }
      xa_pos = abs(xa_pos) - 1;
      double readprobability = calc_prob_distrib(p_readprobmatrix, .., xa_refseq, .., xa_pos);
      if (seti == 0) {
          pout[readi] = log_add_exp(pout[readi], elsewhere);
          prgu[readi] = log_add_exp(prgu[readi], readprobability);
      }
      if (strcmp(xa_chr, read_set[readi]->chr) == 0) {
          if (abs(xa_pos - ((Variant *)var_combo[seti]->data[0])->pos) < 50)
              readprobability = calc_prob_distrib(p_readprobmatrix, .., altseq, .., xa_pos);
      }
      prgv = log_add_exp(prgv, readprobability);
  }\<close>
\<close>

function xa_loop ::
  "refs \<Rightarrow> read \<Rightarrow> bool \<Rightarrow> double list \<Rightarrow> double list \<Rightarrow> double list \<Rightarrow> string \<Rightarrow> int \<Rightarrow>
   bool \<Rightarrow> double \<Rightarrow> string \<Rightarrow> nat option \<Rightarrow> double \<times> double \<times> double \<Rightarrow>
   (double \<times> double \<times> double) option" where
  "xa_loop refs r is_reverse matrix is_match no_match altseq first_pos first elsewhere s n_prev
      (pout, prgu, prgv) =
     (case scan_xa s of
        None \<Rightarrow> Some (pout, prgu, prgv)
      | Some (xa_chr, xa_pos, n_new) \<Rightarrow>
          (case (case n_new of Some n \<Rightarrow> Some n | None \<Rightarrow> n_prev) of
             None \<Rightarrow> None
           | Some n \<Rightarrow>
               if length s < n then None
               else if n = length s \<or> s ! n \<noteq> CHR '';'' then Some (pout, prgu, prgv)
               else
                 (case refs xa_chr of
                    None \<Rightarrow> None
                  | Some xa_refseq \<Rightarrow>
                      (case (if (xa_pos < 0 \<and> \<not> is_reverse) \<or> (0 < xa_pos \<and> is_reverse)
                             then (case reverse_compl (r_qseq r) of
                                     None \<Rightarrow> None
                                   | Some rev_qseq \<Rightarrow>
                                       set_prob_matrix rev_qseq (rev is_match) (rev no_match))
                             else Some matrix) of
                         None \<Rightarrow> None
                       | Some p_readprobmatrix \<Rightarrow>
                           (case calc_prob_distrib p_readprobmatrix (r_length r) xa_refseq
                                   (\<bar>xa_pos\<bar> - 1) of
                              None \<Rightarrow> None
                            | Some readprobability \<Rightarrow>
                                (case (if xa_chr = r_chr r \<and> \<bar>\<bar>xa_pos\<bar> - 1 - first_pos\<bar> < 50
                                       then calc_prob_distrib p_readprobmatrix (r_length r) altseq
                                              (\<bar>xa_pos\<bar> - 1)
                                       else Some readprobability) of
                                   None \<Rightarrow> None
                                 | Some readprobability' \<Rightarrow>
                                     xa_loop refs r is_reverse matrix is_match no_match altseq
                                       first_pos first elsewhere (drop (n + 1) s) (Some n)
                                       (if first then log_add_exp pout elsewhere else pout,
                                        if first then log_add_exp prgu readprobability else prgu,
                                        log_add_exp prgv readprobability')))))))"
  by pat_completeness auto
termination
  by (relation "measure (\<lambda>(refs, r, is_reverse, matrix, is_match, no_match, altseq, first_pos,
        first, elsewhere, s, n_prev, p). length s)") auto

declare xa_loop.simps [simp del]

text \<open>
  The accumulators of one combination (\<open>alt[seti]\<close>, \<open>het[seti]\<close>, \<open>ref_count[seti]\<close>,
  \<open>alt_count[seti]\<close>) and \<open>ref\<close>, which only the first combination adds to.
\<close>

record accum =
  a_ref :: double
  a_alt :: double
  a_het :: double
  a_ref_count :: int
  a_alt_count :: int

text \<open>
  The body of the loop over the reads, for one read. \<open>pout[readi]\<close> and \<open>prgu[readi]\<close>
  are the cell of the read: written in the first combination (\<open>first\<close>, \<open>seti == 0\<close>),
  read in the later ones; a read that is skipped never touches its cell. \<open>qual\<close> has
  one entry for each base.
\<close>

definition eval_read ::
  "config \<Rightarrow> refs \<Rightarrow> string \<Rightarrow> string \<Rightarrow> int \<Rightarrow> bool \<Rightarrow> double \<Rightarrow> double \<Rightarrow> read \<Rightarrow>
   (double \<times> double) option \<times> accum \<Rightarrow> ((double \<times> double) option \<times> accum) option" where
  "eval_read cfg refs refseq altseq first_pos first alt_prior het_prior r cell_acc =
     (case read_flags r of
        (is_unmap, is_reverse, is_secondary) \<Rightarrow>
          if is_unmap then Some cell_acc
          else if pao cfg \<and> is_secondary then Some cell_acc
          else if length (r_qual r) \<noteq> length (r_qseq r) then None
          else
            (let is_match = is_match_of (r_qual r);
                 no_match = no_match_of (r_qual r)
             in case set_prob_matrix (r_qseq r) is_match no_match of
                  None \<Rightarrow> None
                | Some readprobmatrix \<Rightarrow>
                    (case (if first then
                             (case elsewhere_of is_match no_match (r_length r - r_inferred_length r) of
                                None \<Rightarrow> None
                              | Some elsewhere \<Rightarrow>
                                  (case calc_prob_distrib readprobmatrix (r_length r) refseq (r_pos r) of
                                     None \<Rightarrow> None
                                   | Some prgu \<Rightarrow> Some (elsewhere, elsewhere, prgu)))
                           else
                             (case fst cell_acc of
                                None \<Rightarrow> None
                              | Some (pout, prgu) \<Rightarrow> Some (Num 0, pout, prgu))) of
                       None \<Rightarrow> None
                     | Some (elsewhere, pout0, prgu0) \<Rightarrow>
                         (case calc_prob_distrib readprobmatrix (r_length r) altseq (r_pos r) of
                            None \<Rightarrow> None
                          | Some prgv0 \<Rightarrow>
                              (case (if \<not> pao cfg \<and> r_multimap r \<noteq> None then
                                       (case the (r_multimap r) of
                                          [] \<Rightarrow> None
                                        | _ # s \<Rightarrow>
                                            xa_loop refs r is_reverse readprobmatrix is_match no_match
                                              altseq first_pos first elsewhere s None
                                              (pout0, prgu0, prgv0))
                                     else Some (pout0, prgu0, prgv0)) of
                                 None \<Rightarrow> None
                               | Some (pout, prgu1, prgv1) \<Rightarrow>
                                   (let prgu = (if first
                                                then log_add_exp (dadd (dsub LGOMEGA LG1_OMEGA) pout) prgu1
                                                else prgu1);
                                        prgv = log_add_exp (dadd (dsub LGOMEGA LG1_OMEGA) pout) prgv1;
                                        phet0 = log_add_exp (dadd LG50 prgv) (dadd LG50 prgu);
                                        phet10 = log_add_exp (dadd LG10 prgv) (dadd LG90 prgu);
                                        phet90 = log_add_exp (dadd LG90 prgv) (dadd LG10 prgu);
                                        phet1 = (if dgt phet10 phet0 then phet10 else phet0);
                                        phet = (if dgt phet90 phet1 then phet90 else phet1);
                                        acc = snd cell_acc;
                                        is_alt = (dgt prgv prgu \<and> dgt (dsub prgv prgu) (Num (69 / 100)));
                                        is_ref = (dgt prgu prgv \<and> dgt (dsub prgu prgv) (Num (69 / 100)))
                                    in Some (Some (pout, prgu),
                                         acc\<lparr>a_ref := (if first then dadd (a_ref acc) (dadd prgu REFPRIOR)
                                                       else a_ref acc),
                                             a_alt := dadd (a_alt acc) (dadd prgv alt_prior),
                                             a_het := dadd (a_het acc) (dadd phet het_prior),
                                             a_ref_count := (if \<not> is_alt \<and> is_ref then a_ref_count acc + 1
                                                             else a_ref_count acc),
                                             a_alt_count := (if is_alt then a_alt_count acc + 1
                                                             else a_alt_count acc)\<rparr>)))))))"

text \<open>The loop over the reads, each with its cell.\<close>

fun eval_reads ::
  "config \<Rightarrow> refs \<Rightarrow> string \<Rightarrow> string \<Rightarrow> int \<Rightarrow> bool \<Rightarrow> double \<Rightarrow> double \<Rightarrow> read list \<Rightarrow>
   (double \<times> double) option list \<Rightarrow> accum \<Rightarrow> ((double \<times> double) option list \<times> accum) option" where
  "eval_reads cfg refs refseq altseq first_pos first alt_prior het_prior [] cells acc =
     Some ([], acc)"
| "eval_reads cfg refs refseq altseq first_pos first alt_prior het_prior (r # rs) cells acc =
     (case cells of
        [] \<Rightarrow> None
      | cell # cells' \<Rightarrow>
          (case eval_read cfg refs refseq altseq first_pos first alt_prior het_prior r (cell, acc) of
             None \<Rightarrow> None
           | Some (cell1, acc1) \<Rightarrow>
               (case eval_reads cfg refs refseq altseq first_pos first alt_prior het_prior rs cells' acc1 of
                  None \<Rightarrow> None
                | Some (cells1, acc2) \<Rightarrow> Some (cell1 # cells1, acc2))))"


subsection \<open>Evaluator: \<^verbatim>\<open>evaluate_variants\<close>\<close>

text \<open>
  The combinations come back from \<^verbatim>\<open>powerset\<close> as a string and are parsed into
  vectors of variants. \<^verbatim>\<open>char\<close> is signed (as on x86-64), so a character above 127 is
  a negative index; an index outside \<open>var_set\<close> is \<open>None\<close>.
  \<^verbatim>\<open>for (s2 = token; *s2 != '\0'; ++s2)
      vector_add(var_combo[seti], var_set[*s2 - '\t' - 1]);\<close>
\<close>

fun decode_token :: "variant list \<Rightarrow> string \<Rightarrow> variant list option" where
  "decode_token var_set [] = Some []"
| "decode_token var_set (c # cs) =
     (let n = int (of_char c :: nat);
          idx = (if n < 128 then n else n - 256) - 9 - 1
      in if idx < 0 \<or> int (length var_set) \<le> idx then None
         else (case decode_token var_set cs of
                 None \<Rightarrow> None
               | Some vs \<Rightarrow> Some (var_set ! nat idx # vs)))"

text \<open>
  \<^verbatim>\<open>for (s1 = combo; sscanf(s1, "%[^\t]%n", token, &n1) == 1 && seti < ncombos;
       s1 += n1 + 1) {
      ..
      ++seti;
      if (*(s1 + n1) != '\t') break;
  }\<close>
\<close>

function parse_combos ::
  "variant list \<Rightarrow> int \<Rightarrow> string \<Rightarrow> int \<Rightarrow> variant list list option" where
  "parse_combos var_set ncombos s1 seti =
     (let token = takeWhile (\<lambda>c. c \<noteq> CHR 0x09) s1 in
      if token = [] \<or> \<not> seti < ncombos then Some []
      else
        (case decode_token var_set token of
           None \<Rightarrow> None
         | Some var_combo \<Rightarrow>
             (case drop (length token) s1 of
                [] \<Rightarrow> Some [var_combo]
              | c # rest \<Rightarrow>
                  (case parse_combos var_set ncombos rest (seti + 1) of
                     None \<Rightarrow> None
                   | Some var_combos \<Rightarrow> Some (var_combo # var_combos)))))"
  by pat_completeness auto
termination
proof (relation "measure (\<lambda>(var_set, ncombos, s1, seti). length s1)", goal_cases)
  case 1
  show ?case by simp
next
  case (2 var_set ncombos s1 seti token var_combo c rest)
  then have "length (drop (length token) s1) = Suc (length rest)" by simp
  then show ?case by simp
qed

declare parse_combos.simps [simp del]

text \<open>
  The loop over the combinations: the alternative sequence, then the loop over the
  reads. It returns \<open>ref\<close> and, for each combination, \<open>alt\<close>, \<open>het\<close>, \<open>ref_count\<close> and
  \<open>alt_count\<close>.
\<close>

fun eval_combos ::
  "config \<Rightarrow> refs \<Rightarrow> string \<Rightarrow> double \<Rightarrow> double \<Rightarrow> read list \<Rightarrow> bool \<Rightarrow>
   (double \<times> double) option list \<Rightarrow> double \<Rightarrow> variant list list \<Rightarrow>
   (double \<times> (double \<times> double \<times> int \<times> int) list) option" where
  "eval_combos cfg refs refseq alt_prior het_prior reads first cells ref_acc [] = Some (ref_acc, [])"
| "eval_combos cfg refs refseq alt_prior het_prior reads first cells ref_acc (var_combo # rest) =
     (case var_combo of
        [] \<Rightarrow> None
      | v0 # _ \<Rightarrow>
          (case construct_altseq refseq var_combo of
             None \<Rightarrow> None
           | Some altseq \<Rightarrow>
               (case eval_reads cfg refs refseq altseq (v_pos v0) first alt_prior het_prior reads cells
                       \<lparr>a_ref = ref_acc, a_alt = Num 0, a_het = Num 0,
                        a_ref_count = 0, a_alt_count = 0\<rparr> of
                  None \<Rightarrow> None
                | Some (cells1, acc) \<Rightarrow>
                    (case eval_combos cfg refs refseq alt_prior het_prior reads False cells1
                            (a_ref acc) rest of
                       None \<Rightarrow> None
                     | Some (ref1, results) \<Rightarrow>
                         Some (ref1, (a_alt acc, a_het acc, a_ref_count acc, a_alt_count acc)
                                      # results)))))"

text \<open>
  \<^verbatim>\<open>find_variant\<close>, a binary search by \<open>pos\<close> (\<open>i\<close> never goes below 0, so the C
  division is the floor):
  \<^verbatim>\<open>while (i <= j) {
      if (strcmp(..) == 0 && .. && v->pos == curr->pos) return n;
      if (v->pos > curr->pos) i = n + 1;
      else j = n - 1;
      n = (i + j) / 2;
  }
  return -1;\<close>
\<close>

function find_variant_loop :: "variant list \<Rightarrow> variant \<Rightarrow> int \<Rightarrow> int \<Rightarrow> int" where
  "find_variant_loop a v i j =
     (if i \<le> j then
        (let n = (i + j) div 2; cur = a ! nat n in
         if v_chr v = v_chr cur \<and> v_ref v = v_ref cur \<and> v_alt v = v_alt cur \<and> v_pos v = v_pos cur
         then n
         else if v_pos cur < v_pos v then find_variant_loop a v (n + 1) j
         else find_variant_loop a v i (n - 1))
      else - 1)"
  by pat_completeness auto
termination
  by (relation "measure (\<lambda>(a, v, i, j). nat (j - i + 1))") auto

declare find_variant_loop.simps [simp del]

definition find_variant :: "variant list \<Rightarrow> variant \<Rightarrow> int" where
  "find_variant a v = find_variant_loop a v 0 (int (length a) - 1)"

text \<open>
  The marginal probabilities. \<open>total\<close> is assigned anew in every round:
  \<^verbatim>\<open>double total = ref;
  for (seti = 0; seti < ncombos; ++seti) {
      total = log_add_exp(ref, log_add_exp(alt[seti], het[seti]));
      if (ref_count[seti] > max_ref_count) max_ref_count = ref_count[seti];
      if (alt_count[seti] > max_alt_count) max_alt_count = alt_count[seti];
  }
  int read_count = max_ref_count + max_alt_count;\<close>
\<close>

definition total_of :: "double \<Rightarrow> (double \<times> double \<times> int \<times> int) list \<Rightarrow> double" where
  "total_of ref_acc results =
     foldl (\<lambda>t (alt, het, rc, ac). log_add_exp ref_acc (log_add_exp alt het)) ref_acc results"

definition max_ref_count_of :: "(double \<times> double \<times> int \<times> int) list \<Rightarrow> int" where
  "max_ref_count_of results = foldl (\<lambda>m (alt, het, rc, ac). if m < rc then rc else m) 0 results"

definition max_alt_count_of :: "(double \<times> double \<times> int \<times> int) list \<Rightarrow> int" where
  "max_alt_count_of results = foldl (\<lambda>m (alt, het, rc, ac). if m < ac then ac else m) 0 results"

text \<open>
  For one variant, over the combinations: \<open>has_alt\<close>, \<open>not_alt\<close> and \<open>has_alt_count\<close>.
  \<^verbatim>\<open>if (find_variant(var_combo[seti], var_set[i]) != -1) {
      has_alt = has_alt == 0 ? log_add_exp(alt[seti], het[seti])
                             : log_add_exp(has_alt, log_add_exp(alt[seti], het[seti]));
      if (alt_count[seti] > has_alt_count) has_alt_count = alt_count[seti];
  }
  else {
      not_alt = log_add_exp(not_alt, log_add_exp(alt[seti], het[seti]));
  }\<close>
\<close>

definition variant_marginal ::
  "variant \<Rightarrow> double \<Rightarrow> (variant list \<times> double \<times> double \<times> int \<times> int) list \<Rightarrow>
   double \<times> double \<times> int" where
  "variant_marginal v ref_acc combo_results =
     foldl (\<lambda>(has_alt, not_alt, has_alt_count) (var_combo, alt, het, rc, ac).
              if find_variant var_combo v \<noteq> - 1
              then ((if deq has_alt (Num 0) then log_add_exp alt het
                     else log_add_exp has_alt (log_add_exp alt het)),
                    not_alt,
                    (if has_alt_count < ac then ac else has_alt_count))
              else (has_alt, log_add_exp not_alt (log_add_exp alt het), has_alt_count))
       (Num 0, ref_acc, 0) combo_results"

text \<open>
  A line of the output as \<^verbatim>\<open>print_variant\<close> writes it, field by field (the numbers
  are not formatted): the variant, \<open>read_count\<close>, \<open>has_alt_count\<close>,
  \<open>prob = (has_alt - total) * M_1_LN10\<close>, \<open>odds = (has_alt - not_alt) * M_1_LN10\<close>, and
  the descriptor of the set, empty for a set of one variant.
\<close>

record outline =
  o_chr :: string
  o_pos :: int
  o_ref :: string
  o_alt :: string
  o_read_count :: int
  o_has_alt_count :: int
  o_prob :: double
  o_odds :: double
  o_set :: "(int \<times> string \<times> string) list"

definition print_variant ::
  "variant list \<Rightarrow> nat \<Rightarrow> int \<Rightarrow> int \<Rightarrow> double \<Rightarrow> double \<Rightarrow> double \<Rightarrow> outline" where
  "print_variant var_set i read_count has_alt_count total_p has_alt not_alt =
     \<lparr>o_chr = v_chr (var_set ! i), o_pos = v_pos (var_set ! i),
      o_ref = v_ref (var_set ! i), o_alt = v_alt (var_set ! i),
      o_read_count = read_count, o_has_alt_count = has_alt_count,
      o_prob = times_M_1_LN10 (dsub has_alt total_p),
      o_odds = times_M_1_LN10 (dsub has_alt not_alt),
      o_set = (if 1 < length var_set then map (\<lambda>v. (v_pos v, v_ref v, v_alt v)) var_set else [])\<rparr>"

text \<open>
  \<^verbatim>\<open>fetch_reads(bam_file, region)\<close> is the BAM reader: the model takes it as a function
  of the region, \<open>chr\<close> with the 0-based first and last position. The two prior
  probabilities:
  \<^verbatim>\<open>if (nvariants == 1 || mvh) {
      alt_prior = log(0.5 * (1 - hetbias));
      het_prior = log(0.5 * hetbias);
  }
  else {
      alt_prior = log(0.5 * (1 - hetbias) / ncombos);
      het_prior = log(0.5 * hetbias / ncombos);
  }\<close>
\<close>

type_synonym fetch_reads = "string \<times> int \<times> int \<Rightarrow> read list"

definition alt_prior_of :: "config \<Rightarrow> nat \<Rightarrow> int \<Rightarrow> double" where
  "alt_prior_of cfg nvariants ncombos =
     (if nvariants = 1 \<or> mvh cfg then dlog (dmul (Num (1 / 2)) (dsub (Num 1) (hetbias cfg)))
      else dlog (ddiv (dmul (Num (1 / 2)) (dsub (Num 1) (hetbias cfg))) (Num (of_int ncombos))))"

definition het_prior_of :: "config \<Rightarrow> nat \<Rightarrow> int \<Rightarrow> double" where
  "het_prior_of cfg nvariants ncombos =
     (if nvariants = 1 \<or> mvh cfg then dlog (dmul (Num (1 / 2)) (hetbias cfg))
      else dlog (ddiv (dmul (Num (1 / 2)) (hetbias cfg)) (Num (of_int ncombos))))"

text \<open>
  \<^verbatim>\<open>evaluate_variants\<close> for one hypothesis set. The result is \<open>None\<close> when the program
  ends or leaves defined behaviour on the way, \<open>Some None\<close> when the function returns
  \<open>NULL\<close> (no reads in the region), and the lines of the set otherwise.
\<close>

text \<open>
  The region of a set, \<^verbatim>\<open>"%s:%d-%d"\<close> of \<open>var_set[0]->chr\<close>, \<open>var_set[0]->pos - 1\<close> and
  \<open>var_set[nvariants - 1]->pos - 1\<close>, as its three parts.
\<close>

definition region_of :: "variant list \<Rightarrow> string \<times> int \<times> int" where
  "region_of var_set = (v_chr (hd var_set), v_pos (hd var_set) - 1, v_pos (last var_set) - 1)"

definition variant_line ::
  "variant list \<Rightarrow> variant list list \<Rightarrow> double \<Rightarrow> (double \<times> double \<times> int \<times> int) list \<Rightarrow>
   nat \<Rightarrow> outline" where
  "variant_line var_set var_combo ref_acc results i =
     (case variant_marginal (var_set ! i) ref_acc (zip var_combo results) of
        (has_alt, not_alt, has_alt_count) \<Rightarrow>
          print_variant var_set i (max_ref_count_of results + max_alt_count_of results)
            has_alt_count (total_of ref_acc results) has_alt not_alt)"

definition evaluate_variants ::
  "config \<Rightarrow> fetch_reads \<Rightarrow> refs \<Rightarrow> variant list \<Rightarrow> outline list option option" where
  "evaluate_variants cfg fetch refs var_set =
     (case var_set of
        [] \<Rightarrow> None
      | v0 # _ \<Rightarrow>
          (let read_set = fetch (region_of var_set) in
           if read_set = [] then Some None
           else
             (case powerset cfg (length var_set) of
                None \<Rightarrow> None
              | Some (combo, ncombos) \<Rightarrow>
                  (case parse_combos var_set ncombos combo 0 of
                     None \<Rightarrow> None
                   | Some var_combo \<Rightarrow>
                       if int (length var_combo) \<noteq> ncombos then None
                       else
                         (case refs (v_chr v0) of
                            None \<Rightarrow> None
                          | Some refseq \<Rightarrow>
                              (case eval_combos cfg refs refseq
                                      (alt_prior_of cfg (length var_set) ncombos)
                                      (het_prior_of cfg (length var_set) ncombos)
                                      read_set True (map (\<lambda>r. None) read_set) (Num 0) var_combo of
                                 None \<Rightarrow> None
                               | Some (ref_acc, results) \<Rightarrow>
                                   Some (Some (map (variant_line var_set var_combo ref_acc results)
                                                 [0..<length var_set]))))))))"

subsection \<open>WorkerPool: the second part of \<^verbatim>\<open>process_variants\<close>\<close>

text \<open>
  One worker takes the sets from the end of the queue, evaluates each and appends the
  block of lines unless the evaluation returned \<open>NULL\<close>. With several workers the
  blocks arrive in another order, and the final \<^verbatim>\<open>qsort\<close> reorders them in any case:
  the model returns the blocks in the order of one worker, before that sort and without
  the header line.
\<close>

fun pool :: "config \<Rightarrow> fetch_reads \<Rightarrow> refs \<Rightarrow> variant list list \<Rightarrow> outline list list option" where
  "pool cfg fetch refs [] = Some []"
| "pool cfg fetch refs (var_set # queue) =
     (case evaluate_variants cfg fetch refs var_set of
        None \<Rightarrow> None
      | Some outstr \<Rightarrow>
          (case pool cfg fetch refs queue of
             None \<Rightarrow> None
           | Some results \<Rightarrow>
               Some (case outstr of None \<Rightarrow> results | Some block \<Rightarrow> block # results)))"

definition process_variants ::
  "config \<Rightarrow> fetch_reads \<Rightarrow> refs \<Rightarrow> variant list \<Rightarrow> outline list option" where
  "process_variants cfg fetch refs var_vector =
     (case group_variants cfg var_vector of
        None \<Rightarrow> None
      | Some var_set \<Rightarrow>
          (case pool cfg fetch refs (rev var_set) of
             None \<Rightarrow> None
           | Some results \<Rightarrow> Some (concat results)))"

text \<open>
  Auxiliary to the statements: the variant a line is for; whether a read is flagged
  SECONDARY or SUPPLEMENTARY; the reads that are not, with the XA tag removed; and the
  cells of those reads.
\<close>

definition line_variant :: "outline \<Rightarrow> variant" where
  "line_variant l = \<lparr>v_chr = o_chr l, v_pos = o_pos l, v_ref = o_ref l, v_alt = o_alt l\<rparr>"

definition is_secondary_read :: "read \<Rightarrow> bool" where
  "is_secondary_read r = snd (snd (read_flags r))"

definition primary_view :: "read list \<Rightarrow> read list" where
  "primary_view rs = map (\<lambda>r. r\<lparr>r_multimap := None\<rparr>) (filter (\<lambda>r. \<not> is_secondary_read r) rs)"

definition primary_cells :: "read list \<Rightarrow> 'a list \<Rightarrow> 'a list" where
  "primary_cells rs cells = map snd (filter (\<lambda>(r, c). \<not> is_secondary_read r) (zip rs cells))"

text \<open>Auxiliary to the proofs: a relation that cannot tell two neighbours at one position apart.\<close>

definition twin_closed :: "(variant \<Rightarrow> variant \<Rightarrow> bool) \<Rightarrow> bool" where
  "twin_closed R = (\<forall>a b. R a b \<and> v_pos a = v_pos b \<longrightarrow> (\<forall>z. R z a = R z b \<and> R a z = R b z))"


subsection \<open>Example inputs\<close>

text \<open>
  A reference with the contig \<open>chr1 = AAAA\<close>, three SNPs on it (two of them at position
  1), and reads of one base: one flagged UNMAP, one flagged SECONDARY, a primary one,
  and the primary one with an XA tag.
\<close>

definition ex_refs :: refs where
  "ex_refs = (\<lambda>name. if name = ''chr1'' then Some ''AAAA'' else None)"

definition ex_snp_G :: variant where
  "ex_snp_G = \<lparr>v_chr = ''chr1'', v_pos = 1, v_ref = ''A'', v_alt = ''G''\<rparr>"

definition ex_snp_T :: variant where
  "ex_snp_T = \<lparr>v_chr = ''chr1'', v_pos = 1, v_ref = ''A'', v_alt = ''T''\<rparr>"

definition ex_snp_C :: variant where
  "ex_snp_C = \<lparr>v_chr = ''chr1'', v_pos = 3, v_ref = ''A'', v_alt = ''C''\<rparr>"

definition ex_unmapped :: read where
  "ex_unmapped = \<lparr>r_name = ''r0'', r_chr = ''chr1'', r_pos = 0, r_qseq = ''G'',
     r_qual = [Num (- 1)], r_flag = ''UNMAP'', r_inferred_length = 1, r_multimap = None\<rparr>"

definition ex_secondary :: read where
  "ex_secondary = \<lparr>r_name = ''r1'', r_chr = ''chr1'', r_pos = 0, r_qseq = ''G'',
     r_qual = [Num (- 1)], r_flag = ''SECONDARY'', r_inferred_length = 1, r_multimap = None\<rparr>"

definition ex_primary :: read where
  "ex_primary = \<lparr>r_name = ''r2'', r_chr = ''chr1'', r_pos = 0, r_qseq = ''G'',
     r_qual = [Num (- 1)], r_flag = ''PAIRED'', r_inferred_length = 1, r_multimap = None\<rparr>"

definition ex_primary_xa :: read where
  "ex_primary_xa = ex_primary\<lparr>r_multimap := Some ''Zchr1,+3,1M,0;''\<rparr>"

definition ex_pao :: config where
  "ex_pao = defaults\<lparr>pao := True\<rparr>"


subsection \<open>Combinations in lexicographic order, as the specification words them\<close>

text \<open>
  The specification's order of enumeration: within a size \<open>k\<close>, all strictly increasing
  index lists of length \<open>k\<close> over \<open>0..n-1\<close> in lexicographic order;
  \<open>lex_combinations_from k lo n\<close> lists those whose entries are at least \<open>lo\<close>.
\<close>

fun lex_combinations_from :: "nat \<Rightarrow> nat \<Rightarrow> nat \<Rightarrow> nat list list" where
  "lex_combinations_from 0 lo n = [[]]"
| "lex_combinations_from (Suc k) lo n =
     concat (map (\<lambda>x. map ((#) x) (lex_combinations_from k (Suc x) n)) [lo..<n])"

definition lex_combinations :: "nat \<Rightarrow> nat \<Rightarrow> nat list list" where
  "lex_combinations k n = lex_combinations_from k 0 n"

text \<open>
  The order of the whole enumeration for a set of \<open>n\<close> variants: the singletons, the
  full set, then the sizes \<open>2, .., K\<close>.
\<close>

definition enumeration_upto :: "nat \<Rightarrow> nat \<Rightarrow> nat list list" where
  "enumeration_upto n K =
     lex_combinations 1 n @ lex_combinations n n @
     concat (map (\<lambda>k. lex_combinations k n) [2..<Suc K])"

text \<open>The number of combinations of the sizes \<open>2, .., K\<close>.\<close>

definition intermediate_count :: "nat \<Rightarrow> nat \<Rightarrow> nat" where
  "intermediate_count n K = (\<Sum>k\<leftarrow>[2..<Suc K]. n choose k)"

text \<open>
  The size after which \<^verbatim>\<open>powerset\<close> stops: the first \<open>K\<close> in \<open>2, .., n-1\<close> with at least
  \<open>maxh\<close> combinations of the sizes \<open>2, .., K\<close>, and \<open>n-1\<close> when there is none.
\<close>

definition stop_size :: "int \<Rightarrow> nat \<Rightarrow> nat" where
  "stop_size mh n =
     (case find (\<lambda>K. mh \<le> int (intermediate_count n K)) [2..<n] of
        Some K \<Rightarrow> K
      | None \<Rightarrow> n - 1)"

text \<open>
  Auxiliary to the proofs: the successor of a combination in that order (\<open>None\<close> for
  the last one), and the rightmost position below \<open>i\<close> whose entry can still grow.
\<close>

fun next_combination :: "nat \<Rightarrow> nat list \<Rightarrow> nat list option" where
  "next_combination n [] = None"
| "next_combination n (x # rest) =
     (case next_combination n rest of
        Some r \<Rightarrow> Some (x # r)
      | None \<Rightarrow> if x + 1 + length rest < n then Some [x + 1..<x + 2 + length rest] else None)"

fun find_pos :: "nat \<Rightarrow> nat \<Rightarrow> nat list \<Rightarrow> nat \<Rightarrow> nat option" where
  "find_pos k n c 0 = None"
| "find_pos k n c (Suc i) = (if c ! i < n - k + i then Some i else find_pos k n c i)"

fun successive :: "nat \<Rightarrow> nat list list \<Rightarrow> bool" where
  "successive n [] = True"
| "successive n [c] = True"
| "successive n (c # c' # cs) = (next_combination n c = Some c' \<and> successive n (c' # cs))"


section \<open>Properties\<close>

subsection \<open>LogMath\<close>


































lemma two_powr_1024_pos: "0 < (2::real) powr 1024"
  by simp






















lemma dle_Num: "dle (Num a) (Num b) = (a \<le> b)"
  by (auto simp: dle_def)























subsection \<open>ReadModel\<close>

text \<open>
  C10. When the alignment position is at or past \<open>seq_length + read_length\<close>, the read
  window lies wholly past the end of the sequence: the baseline computation and the
  shift loop both stop before any matrix entry is read, and \<open>calc_prob_distrib\<close> returns
  0 (log-probability 0, probability 1), whatever the matrix holds.
\<close>

theorem calc_prob_distrib_past_end:
  "int (length seq) + read_length \<le> pos \<Longrightarrow>
   calc_prob_distrib matrix read_length seq pos = Some (Num 0)"
proof -
  assume h: "int (length seq) + read_length \<le> pos"
  show ?thesis
  proof (cases "0 \<le> read_length")
    case True
    then have "calc_prob matrix read_length seq pos (Num (- 1000)) = Some (Num 0)"
      using h by (simp add: calc_prob_def)
    then show ?thesis using h True by (simp add: calc_prob_distrib_def)
  next
    case False
    then show ?thesis by (simp add: calc_prob_distrib_def calc_prob_def)
  qed
qed

theorem calc_prob_distrib_past_end_witness:
  "int (length ''ACG'') + 3 \<le> 6 \<and> calc_prob_distrib [] 3 ''ACG'' 6 = Some (Num 0)"
  using calc_prob_distrib_past_end[of "''ACG''" 3 6 "[]"] by simp

subsection \<open>AltBuilder\<close>

text \<open>
  C6. Applied to a reference and the empty variant list, \<open>construct_altseq\<close> returns
  the reference. For a single SNP at the 1-based position \<open>p\<close> inside the reference
  (\<open>ref\<close> and \<open>alt\<close> one base each, neither of them \<open>-\<close>) the result is the reference
  with index \<open>p - 1\<close> set to the alternative base, so it differs from it at that index
  only. For a single pure insertion \<open>(p, "-", I)\<close> with \<open>0 \<le> p \<le> len(ref)\<close> the result
  is the first \<open>p\<close> bases of the reference, then \<open>I\<close>, then the remaining bases: its
  length is \<open>len(ref) + len(I)\<close>, and the bases up to position \<open>p\<close> and those after it
  are unchanged. (\<open>refseq_length\<close> is a C \<^verbatim>\<open>int\<close>, so the reference is shorter than
  \<open>2^31\<close>.)
\<close>

theorem construct_altseq_laws:
  "construct_altseq refseq [] = Some refseq \<and>
   (R \<noteq> CHR ''-'' \<and> A \<noteq> CHR ''-'' \<and> 1 \<le> p \<and> p \<le> int (length refseq) \<and>
    int (length refseq) < 2 ^ 31 \<longrightarrow>
      construct_altseq refseq [\<lparr>v_chr = c, v_pos = p, v_ref = [R], v_alt = [A]\<rparr>] =
        Some (refseq[nat (p - 1) := A])) \<and>
   (0 \<le> q \<and> q \<le> int (length refseq) \<and> int (length refseq) < 2 ^ 31 \<longrightarrow>
      (\<exists>r. construct_altseq refseq [\<lparr>v_chr = c, v_pos = q, v_ref = ''-'', v_alt = I\<rparr>] = Some r \<and>
           r = take (nat q) refseq @ I @ drop (nat q) refseq \<and>
           length r = length refseq + length I \<and>
           take (nat q) r = take (nat q) refseq \<and>
           drop (nat q + length I) r = drop (nat q) refseq))"
proof -
  have 1: "construct_altseq refseq [] = Some refseq"
    by (simp add: construct_altseq_def)
  have 2: "construct_altseq refseq [\<lparr>v_chr = c, v_pos = p, v_ref = [R], v_alt = [A]\<rparr>] =
        Some (refseq[nat (p - 1) := A])"
    if "R \<noteq> CHR ''-''" "A \<noteq> CHR ''-''" "1 \<le> p" "p \<le> int (length refseq)"
      "int (length refseq) < 2 ^ 31"
  proof -
    have "(p - 1) mod 2 ^ 64 = p - 1" using that by (simp add: mod_pos_pos_trivial)
    then show ?thesis using that
      by (simp add: construct_altseq_def starts_with_dash_def Let_def)
  qed
  have 3: "construct_altseq refseq [\<lparr>v_chr = c, v_pos = q, v_ref = ''-'', v_alt = I\<rparr>] =
        Some (take (nat q) refseq @ I @ drop (nat q) refseq)"
    if "0 \<le> q" "q \<le> int (length refseq)" "int (length refseq) < 2 ^ 31"
  proof -
    have "((q - 1) mod 2 ^ 64 + 1) mod 2 ^ 64 = q"
      using that by (simp add: mod_add_left_eq mod_pos_pos_trivial)
    then show ?thesis using that
      by (cases "I = []") (simp_all add: construct_altseq_def starts_with_dash_def Let_def splice_def)
  qed
  have 4: "length (take (nat q) refseq @ I @ drop (nat q) refseq) = length refseq + length I \<and>
      take (nat q) (take (nat q) refseq @ I @ drop (nat q) refseq) = take (nat q) refseq \<and>
      drop (nat q + length I) (take (nat q) refseq @ I @ drop (nat q) refseq) = drop (nat q) refseq"
    if "0 \<le> q" "q \<le> int (length refseq)"
  proof -
    have "length (take (nat q) refseq) = nat q" using that by simp
    then show ?thesis using that by (simp add: min_def)
  qed
  show ?thesis using 1 2 3 4 by blast
qed

theorem construct_altseq_laws_witness:
  "construct_altseq ''AAAA'' [] = Some ''AAAA'' \<and>
   construct_altseq ''AAAA'' [\<lparr>v_chr = ''chr1'', v_pos = 2, v_ref = ''A'', v_alt = ''G''\<rparr>] = Some ''AGAA'' \<and>
   construct_altseq ''AAAA'' [\<lparr>v_chr = ''chr1'', v_pos = 2, v_ref = ''-'', v_alt = ''ACG''\<rparr>] = Some ''AAACGAA''"
  using construct_altseq_laws[of "''AAAA''" "CHR ''A''" "CHR ''G''" 2 "''chr1''" 2 "''ACG''"]
  by simp


subsection \<open>Command line\<close>

lemma apply_opt_hetbias_Num:
  "apply_opt c opt = Inr c' \<Longrightarrow> \<exists>h. hetbias c = Num h \<Longrightarrow> \<exists>h. hetbias c' = Num h"
  by (cases opt) (auto simp: apply_opt_def split: if_splits sum.splits)

lemma option_loop_hetbias_Num:
  "option_loop c opts = Inr c' \<Longrightarrow> \<exists>h. hetbias c = Num h \<Longrightarrow> \<exists>h. hetbias c' = Num h"
proof (induction opts arbitrary: c)
  case Nil
  then show ?case by simp
next
  case (Cons opt opts)
  then obtain c1 where a: "apply_opt c opt = Inr c1" and l: "option_loop c1 opts = Inr c'"
    by (auto split: sum.splits)
  from apply_opt_hetbias_Num[OF a Cons.prems(2)] Cons.IH[OF l] show ?case by blast
qed

lemma apply_opt_hetbias_same:
  "apply_opt c opt = Inr c' \<Longrightarrow> \<forall>arg. opt \<noteq> Opt CHR ''b'' arg \<Longrightarrow> hetbias c' = hetbias c"
  by (cases opt) (auto simp: apply_opt_def split: if_splits sum.splits)

lemma option_loop_hetbias_same:
  "option_loop c opts = Inr c' \<Longrightarrow> \<forall>arg. Opt CHR ''b'' arg \<notin> set opts \<Longrightarrow> hetbias c' = hetbias c"
proof (induction opts arbitrary: c)
  case Nil
  then show ?case by simp
next
  case (Cons opt opts)
  then obtain c1 where a: "apply_opt c opt = Inr c1" and l: "option_loop c1 opts = Inr c'"
    by (auto split: sum.splits)
  have "hetbias c1 = hetbias c" using apply_opt_hetbias_same[OF a] Cons.prems(2) by auto
  moreover have "hetbias c' = hetbias c1" using Cons.IH[OF l] Cons.prems(2) by auto
  ultimately show ?case by simp
qed

lemma option_loop_append:
  "option_loop c (xs @ ys) = (case option_loop c xs of Inl e \<Rightarrow> Inl e | Inr c1 \<Rightarrow> option_loop c1 ys)"
  by (induction xs arbitrary: c) (auto split: sum.splits)

lemma check_options_hetbias:
  "check_options c = Inr c' \<Longrightarrow> hetbias c = Num h \<Longrightarrow>
   hetbias c' = (if h < 0 \<or> 1 < h then Num (1 / 2) else Num h)"
  by (auto simp: check_options_def dgt_def split: if_splits)

lemma check_options_update_hetbias:
  "check_options c = Inr c' \<Longrightarrow>
   check_options (c\<lparr>hetbias := Num h\<rparr>) = Inr (c'\<lparr>hetbias := (if h < 0 \<or> 1 < h then Num (1 / 2) else Num h)\<rparr>)"
  by (auto simp: check_options_def dgt_def split: if_splits)

text \<open>
  C5 (amended). The \<open>hetbias\<close> setting is 0.5 unless \<open>-b\<close> is given, and after a
  successful start it always lies in \<open>[0,1]\<close>. A \<open>-b\<close> value that \<open>parse_num\<close> reads as a
  number outside \<open>[0,1]\<close> is not an error: appended to a command line that starts the
  program, it starts the program as well, with \<open>hetbias\<close> put back to the default 0.5
  (and with the number itself when that is 0 or 1).
\<close>

theorem hetbias_option:
  "(main_options opts = Inr cfg \<longrightarrow> (\<exists>h. hetbias cfg = Num h \<and> 0 \<le> h \<and> h \<le> 1)) \<and>
   (main_options opts = Inr cfg \<longrightarrow> (\<forall>arg. Opt CHR ''b'' arg \<notin> set opts) \<longrightarrow> hetbias cfg = Num (1 / 2)) \<and>
   (main_options opts = Inr cfg \<longrightarrow> parse_num arg = Inr v \<longrightarrow>
      main_options (opts @ [Opt CHR ''b'' arg]) =
        Inr (cfg\<lparr>hetbias := (if v < 0 \<or> 1 < v then Num (1 / 2) else Num (of_int v))\<rparr>))"
proof (cases "main_options opts = Inr cfg")
  case False
  then show ?thesis by simp
next
  case True
  then obtain c where l: "option_loop defaults opts = Inr c" and k: "check_options c = Inr cfg"
    by (auto simp: main_options_def split: sum.splits)
  have "hetbias defaults = Num (1 / 2)" by (simp add: defaults_def)
  then have "\<exists>h. hetbias defaults = Num h" by (rule exI)
  then obtain h where h: "hetbias c = Num h"
    using option_loop_hetbias_Num[OF l] by blast
  have 1: "\<exists>h. hetbias cfg = Num h \<and> 0 \<le> h \<and> h \<le> 1"
  proof (cases "h < 0 \<or> 1 < h")
    case True
    then have "hetbias cfg = Num (1 / 2) \<and> (0::real) \<le> 1 / 2 \<and> (1::real) / 2 \<le> 1"
      using check_options_hetbias[OF k h] by simp
    then show ?thesis by (rule exI)
  next
    case False
    then have "hetbias cfg = Num h \<and> 0 \<le> h \<and> h \<le> 1"
      using check_options_hetbias[OF k h] by simp
    then show ?thesis by (rule exI)
  qed
  have 2: "(\<forall>arg. Opt CHR ''b'' arg \<notin> set opts) \<longrightarrow> hetbias cfg = Num (1 / 2)"
  proof
    assume "\<forall>arg. Opt CHR ''b'' arg \<notin> set opts"
    then have "hetbias c = Num (1 / 2)"
      using option_loop_hetbias_same[OF l] by (simp add: defaults_def)
    then show "hetbias cfg = Num (1 / 2)"
      using check_options_hetbias[OF k, of "1 / 2"] by simp
  qed
  have 3: "parse_num arg = Inr v \<longrightarrow>
      main_options (opts @ [Opt CHR ''b'' arg]) =
        Inr (cfg\<lparr>hetbias := (if v < 0 \<or> 1 < v then Num (1 / 2) else Num (of_int v))\<rparr>)"
  proof
    assume p: "parse_num arg = Inr v"
    have "option_loop defaults (opts @ [Opt CHR ''b'' arg]) = Inr (c\<lparr>hetbias := Num (of_int v)\<rparr>)"
      using l p by (simp add: option_loop_append apply_opt_def)
    then show "main_options (opts @ [Opt CHR ''b'' arg]) =
        Inr (cfg\<lparr>hetbias := (if v < 0 \<or> 1 < v then Num (1 / 2) else Num (of_int v))\<rparr>)"
      using check_options_update_hetbias[OF k, of "of_int v"] by (simp add: main_options_def)
  qed
  from 1 2 3 True show ?thesis by simp
qed

lemma files_ok:
  "main_options [Opt CHR ''v'' ''x.vcf'', Opt CHR ''a'' ''x.bam'', Opt CHR ''r'' ''x.fa''] =
    Inr (defaults\<lparr>vcf_file := Some ''x.vcf'', bam_file := Some ''x.bam'', fa_file := Some ''x.fa''\<rparr>)"
  by (simp add: main_options_def apply_opt_def check_options_def defaults_def dgt_def)

lemma pn5: "parse_num ''5'' = Inr 5"
  by (simp add: parse_num_def strtol_def isspace_def digit_val_def long_to_int_def Let_def)

lemma pn03: "parse_num ''0.3'' = Inl Exit_err"
  by (simp add: parse_num_def strtol_def isspace_def digit_val_def long_to_int_def Let_def)

lemma pnabc: "parse_num ''abc'' = Inr 0"
  by (simp add: parse_num_def strtol_def isspace_def digit_val_def long_to_int_def Let_def)

text \<open>
  C5 as stated fails: \<open>-b 5\<close> is out of range, yet the program starts, with the default
  in place of the value; and \<open>-b 0.3\<close>, a FLOAT in \<open>[0,1]\<close>, ends in \<open>exit_err\<close>.
\<close>

theorem hetbias_out_of_range_counterexample:
  "main_options [Opt CHR ''v'' ''x.vcf'', Opt CHR ''a'' ''x.bam'', Opt CHR ''r'' ''x.fa'', Opt CHR ''b'' ''5'']
     = Inr (defaults\<lparr>vcf_file := Some ''x.vcf'', bam_file := Some ''x.bam'', fa_file := Some ''x.fa''\<rparr>)
   \<and> main_options [Opt CHR ''v'' ''x.vcf'', Opt CHR ''a'' ''x.bam'', Opt CHR ''r'' ''x.fa'', Opt CHR ''b'' ''0.3'']
     = Inl Exit_err"
  by (simp add: main_options_def apply_opt_def check_options_def defaults_def dgt_def pn5 pn03)

theorem hetbias_option_witness:
  "main_options [Opt CHR ''v'' ''x.vcf'', Opt CHR ''a'' ''x.bam'', Opt CHR ''r'' ''x.fa'', Opt CHR ''b'' ''5'']
     = Inr (defaults\<lparr>vcf_file := Some ''x.vcf'', bam_file := Some ''x.bam'', fa_file := Some ''x.fa''\<rparr>)"
  using hetbias_option[of "[Opt CHR ''v'' ''x.vcf'', Opt CHR ''a'' ''x.bam'', Opt CHR ''r'' ''x.fa'']"
      "defaults\<lparr>vcf_file := Some ''x.vcf'', bam_file := Some ''x.bam'', fa_file := Some ''x.fa''\<rparr>" "''5''" 5]
    files_ok pn5 by (simp add: defaults_def)

subsection \<open>Combination enumeration\<close>

lemma find_pos_Some_less: "find_pos k n c m = Some i \<Longrightarrow> i < m \<and> c ! i < n - k + i"
  by (induction m) (auto split: if_splits)

lemma find_pos_None: "find_pos k n c m = None \<Longrightarrow> j < m \<Longrightarrow> n - k + j \<le> c ! j"
  by (induction m) (auto split: if_splits simp: less_Suc_eq)

lemma inc_from_step:
  assumes "Suc i < length c"
  shows "(take (Suc i) c @ map Suc (drop (Suc i) c))[i := (take (Suc i) c @ map Suc (drop (Suc i) c)) ! i + 1]
         = take i c @ map Suc (drop i c)"
proof -
  have i: "i < length c" using assms by simp
  have "(take (Suc i) c @ map Suc (drop (Suc i) c)) = take i c @ [c ! i] @ map Suc (drop (Suc i) c)"
    using i by (simp add: take_Suc_conv_app_nth)
  moreover have "take i c @ map Suc (drop i c) = take i c @ [Suc (c ! i)] @ map Suc (drop (Suc i) c)"
    using i by (simp add: Cons_nth_drop_Suc[symmetric])
  ultimately show ?thesis using i
    by (simp add: list_update_append nth_append)
qed

lemma carry_loop_nat:
  "carry_loop k n c (int i) =
     (if i < k \<and> n + i + 1 \<le> c ! i + k
      then carry_loop k n (if 1 \<le> i then c[i - 1 := c ! (i - 1) + 1] else c) (int i - 1)
      else (c, int i))"
proof -
  have 1: "nat (int i - 1) = i - 1" by simp
  have 2: "(0 \<le> int i - 1) = (1 \<le> i)" by auto
  have 3: "(int n - int k + 1 + int i \<le> int (c ! i)) = (n + i + 1 \<le> c ! i + k)" by auto
  show ?thesis
    by (subst carry_loop.simps) (simp only: 1 2 3 nat_int of_nat_0_le_iff of_nat_less_iff simp_thms)
qed

lemma carry_loop_neg: "carry_loop k n c (- 1) = (c, - 1)"
  by (subst carry_loop.simps) simp

lemma carry_loop_zero:
  "carry_loop k n c 0 = (if 0 < k \<and> n + 1 \<le> c ! 0 + k then (c, - 1) else (c, 0))"
  using carry_loop_nat[of k n c 0] by (simp add: carry_loop_neg)

lemma carry_loop_closed:
  assumes "length c = k" "k \<le> n" "i < k"
  shows "carry_loop k n (take i c @ map Suc (drop i c)) (int i) =
     (case find_pos k n c (Suc i) of
        None \<Rightarrow> (map Suc c, - 1)
      | Some j \<Rightarrow> (take j c @ map Suc (drop j c), int j))"
  using assms
proof (induction i)
  case 0
  then obtain a as where c: "c = a # as" by (cases c) auto
  show ?case using 0 c by (auto simp: carry_loop_zero)
next
  case (Suc i)
  let ?d = "take (Suc i) c @ map Suc (drop (Suc i) c)"
  have nth: "?d ! Suc i = Suc (c ! Suc i)"
    using Suc.prems by (simp add: nth_append)
  show ?case
  proof (cases "c ! Suc i < n - k + Suc i")
    case True
    then have "\<not> (n + Suc i + 1 \<le> ?d ! Suc i + k)" using nth Suc.prems by simp
    then have "carry_loop k n ?d (int (Suc i)) = (?d, int (Suc i))"
      by (subst carry_loop_nat) (simp only: simp_thms if_False)
    then show ?thesis using True by simp
  next
    case False
    then have "Suc i < k \<and> n + Suc i + 1 \<le> ?d ! Suc i + k" using nth Suc.prems by simp
    then have "carry_loop k n ?d (int (Suc i)) =
          carry_loop k n (?d[i := ?d ! i + 1]) (int i)"
      by (subst carry_loop_nat) simp
    also have "?d[i := ?d ! i + 1] = take i c @ map Suc (drop i c)"
      using inc_from_step[of i c] Suc.prems by simp
    finally show ?thesis using False Suc by simp
  qed
qed

lemma refill_closed:
  assumes "length d = k" "1 \<le> j" "j \<le> k"
  shows "refill k d j = take j d @ [d ! (j - 1) + 1..<d ! (j - 1) + 1 + (k - j)]"
  using assms
proof (induction "k - j" arbitrary: d j)
  case 0
  then have "refill k d j = d" by (subst refill.simps) simp
  then show ?case using 0 by simp
next
  case (Suc m)
  then have jk: "j < k" by simp
  define x where "x = d ! (j - 1) + 1"
  let ?d = "d[j := x]"
  have "refill k d j = refill k ?d (j + 1)"
    using jk by (subst refill.simps) (simp add: x_def)
  also have "\<dots> = take (j + 1) ?d @ [?d ! j + 1..<?d ! j + 1 + (k - (j + 1))]"
    using Suc.hyps(1)[of "j + 1" ?d] Suc.hyps(2) Suc.prems jk by simp
  also have "take (j + 1) ?d = take j d @ [x]"
    using jk Suc.prems by (simp add: take_Suc_conv_app_nth)
  also have "?d ! j = x" using jk Suc.prems by simp
  also have "x + 1 + (k - (j + 1)) = x + (k - j)" using jk by simp
  finally have "refill k d j = take j d @ (x # [x + 1..<x + (k - j)])" by simp
  moreover have "[x..<x + (k - j)] = x # [x + 1..<x + (k - j)]"
    using jk by (simp add: upt_conv_Cons)
  ultimately show ?case by (simp only: x_def)
qed


lemma find_pos_Cons:
  assumes "Suc k \<le> n"
  shows "find_pos (Suc k) n (x # rest) (Suc m) =
     (case find_pos k n rest m of
        Some j \<Rightarrow> Some (Suc j)
      | None \<Rightarrow> if x < n - Suc k then Some 0 else None)"
proof (induction m)
  case 0
  then show ?case by simp
next
  case (Suc m)
  have e: "n - Suc k + Suc m = n - k + m" using assms by simp
  have "find_pos (Suc k) n (x # rest) (Suc (Suc m)) =
        (if rest ! m < n - k + m then Some (Suc m) else find_pos (Suc k) n (x # rest) (Suc m))"
    by (simp only: find_pos.simps e nth_Cons_Suc)
  also have "\<dots> = (if rest ! m < n - k + m then Some (Suc m)
        else (case find_pos k n rest m of
                Some j \<Rightarrow> Some (Suc j)
              | None \<Rightarrow> if x < n - Suc k then Some 0 else None))"
    by (simp only: Suc)
  also have "\<dots> = (case find_pos k n rest (Suc m) of
        Some j \<Rightarrow> Some (Suc j)
      | None \<Rightarrow> if x < n - Suc k then Some 0 else None)"
    by (simp del: upt_Suc)
  finally show ?case .
qed

lemma next_combination_find_pos:
  assumes "length c = k" "k \<le> n"
  shows "next_combination n c =
     (case find_pos k n c k of
        None \<Rightarrow> None
      | Some i \<Rightarrow> Some (take i c @ [c ! i + 1..<c ! i + 1 + (k - i)]))"
  using assms
proof (induction c arbitrary: k)
  case Nil
  then show ?case by simp
next
  case (Cons x rest)
  then obtain k' where k: "k = Suc k'" "length rest = k'" "Suc k' \<le> n" by (cases k) auto
  have IH: "next_combination n rest =
     (case find_pos k' n rest k' of
        None \<Rightarrow> None
      | Some i \<Rightarrow> Some (take i rest @ [rest ! i + 1..<rest ! i + 1 + (k' - i)]))"
    using Cons.IH[of k'] k by simp
  have fp: "find_pos (Suc k') n (x # rest) (Suc k') =
     (case find_pos k' n rest k' of
        Some j \<Rightarrow> Some (Suc j)
      | None \<Rightarrow> if x < n - Suc k' then Some 0 else None)"
    using k(3) by (rule find_pos_Cons)
  show ?case
  proof (cases "find_pos k' n rest k'")
    case None
    have c: "(x + 1 + length rest < n) = (x < n - Suc k')" using k by auto
    have u: "[x + 1..<x + 2 + length rest] = [x + 1..<x + 1 + Suc k']" using k by simp
    have "next_combination n (x # rest) = (if x < n - Suc k' then Some [x + 1..<x + 1 + Suc k'] else None)"
      using None IH by (simp only: next_combination.simps c u option.case)
    moreover have "(case find_pos k n (x # rest) k of
        None \<Rightarrow> None
      | Some i \<Rightarrow> Some (take i (x # rest) @ [(x # rest) ! i + 1..<(x # rest) ! i + 1 + (k - i)]))
      = (if x < n - Suc k' then Some [x + 1..<x + 1 + Suc k'] else None)"
      unfolding k(1) fp None by (simp del: upt_Suc)
    ultimately show ?thesis by simp
  next
    case (Some j)
    have "next_combination n (x # rest) = Some (x # take j rest @ [rest ! j + 1..<rest ! j + 1 + (k' - j)])"
      using Some IH by (simp del: upt_Suc)
    moreover have "(case find_pos k n (x # rest) k of
        None \<Rightarrow> None
      | Some i \<Rightarrow> Some (take i (x # rest) @ [(x # rest) ! i + 1..<(x # rest) ! i + 1 + (k - i)]))
      = Some (x # take j rest @ [rest ! j + 1..<rest ! j + 1 + (k' - j)])"
      unfolding k(1) fp Some by (simp del: upt_Suc)
    ultimately show ?thesis by simp
  qed
qed

lemma update_last_inc:
  assumes "length c = k" "1 \<le> k"
  shows "c[k - 1 := c ! (k - 1) + 1] = take (k - 1) c @ map Suc (drop (k - 1) c)"
proof -
  have "c \<noteq> []" using assms by auto
  then have c: "c = butlast c @ [last c]" by simp
  have l: "length (butlast c) = k - 1" using assms by simp
  have n: "c ! (k - 1) = last c" using assms \<open>c \<noteq> []\<close> by (simp add: last_conv_nth)
  have "c[k - 1 := last c + 1] = butlast c @ [last c + 1]"
    using l by (subst c) (simp add: list_update_append)
  moreover have "take (k - 1) c = butlast c" using assms by (simp add: butlast_conv_take)
  moreover have "drop (k - 1) c = [last c]"
    using l c by (metis append_eq_conv_conj)
  ultimately show ?thesis using n by simp
qed

lemma combinations_loop_step:
  assumes "length c = k" "1 \<le> k" "k \<le> n" "c ! 0 \<le> n - k"
  shows "combinations_loop k n c out m =
     (case next_combination n c of
        None \<Rightarrow> Some (out @ token c, m + 1)
      | Some c' \<Rightarrow> combinations_loop k n c' (out @ token c) (m + 1))"
proof -
  have "k - 1 < k" using assms by simp
  then have carry: "carry_loop k n (c[k - 1 := c ! (k - 1) + 1]) (int k - 1) =
     (case find_pos k n c k of
        None \<Rightarrow> (map Suc c, - 1)
      | Some j \<Rightarrow> (take j c @ map Suc (drop j c), int j))"
    using carry_loop_closed[of c k n "k - 1"] assms update_last_inc[of c k]
    by (simp add: of_nat_diff del: find_pos.simps)
  show ?thesis
  proof (cases "find_pos k n c k")
    case None
    have "n - k \<le> c ! 0" using find_pos_None[OF None, of 0] assms by simp
    then have "int n - int k < int (map Suc c ! 0)" using assms by (simp add: nth_map)
    then show ?thesis
      using None carry next_combination_find_pos[of c k n] assms
      by (subst combinations_loop.simps) simp
  next
    case (Some j)
    then have j: "j < k" "c ! j < n - k + j" using find_pos_Some_less[OF Some] by auto
    let ?c' = "take j c @ map Suc (drop j c)"
    have c0: "\<not> int n - int k < int (?c' ! 0)"
    proof (cases j)
      case 0
      then show ?thesis using j assms by (cases c) auto
    next
      case (Suc j')
      then show ?thesis using j assms by (simp add: nth_append)
    qed
    have cj: "?c' ! j = c ! j + 1" using j assms by (simp add: nth_append)
    have tk: "take (j + 1) ?c' = take j c @ [c ! j + 1]"
      using j assms by (simp add: take_Suc_conv_app_nth nth_append)
    have e: "c ! j + 1 + 1 + (k - (j + 1)) = c ! j + 1 + (k - j)" using j by simp
    have "refill k ?c' (j + 1) = take (j + 1) ?c' @ [?c' ! j + 1..<?c' ! j + 1 + (k - (j + 1))]"
      using refill_closed[of ?c' k "j + 1"] j assms by simp
    also have "\<dots> = take j c @ ((c ! j + 1) # [c ! j + 1 + 1..<c ! j + 1 + (k - j)])"
      by (simp only: cj tk e append_assoc append_Cons append_Nil)
    also have "(c ! j + 1) # [c ! j + 1 + 1..<c ! j + 1 + (k - j)] = [c ! j + 1..<c ! j + 1 + (k - j)]"
      using j by (simp add: upt_conv_Cons del: upt_Suc)
    finally have rf: "refill k ?c' (nat (int j) + 1) = take j c @ [c ! j + 1..<c ! j + 1 + (k - j)]"
      by simp
    show ?thesis
      using Some carry c0 rf next_combination_find_pos[of c k n] assms
      by (subst combinations_loop.simps) (simp del: upt_Suc)
  qed
qed

lemma lex_combinations_from_rec:
  "lo < n \<Longrightarrow> lex_combinations_from (Suc k) lo n =
     map ((#) lo) (lex_combinations_from k (Suc lo) n) @ lex_combinations_from (Suc k) (Suc lo) n"
  by (simp add: upt_conv_Cons)

lemma lex_combinations_from_ge: "n \<le> lo \<Longrightarrow> lex_combinations_from (Suc k) lo n = []"
  by simp

lemma in_lex_combinations_from:
  "c \<in> set (lex_combinations_from k lo n) \<Longrightarrow>
     length c = k \<and> sorted_wrt (<) c \<and> (\<forall>x\<in>set c. lo \<le> x \<and> x < n)"
proof (induction k arbitrary: lo c)
  case 0
  then show ?case by simp
next
  case (Suc k)
  then obtain x r where x: "lo \<le> x" "x < n" "c = x # r" "r \<in> set (lex_combinations_from k (Suc x) n)"
    by auto
  from Suc.IH[OF x(4)] x show ?case by fastforce
qed

lemma lex_combinations_from_empty:
  "n < lo + Suc k \<Longrightarrow> lex_combinations_from (Suc k) lo n = []"
proof (induction k arbitrary: lo)
  case 0
  then show ?case by simp
next
  case (Suc k)
  have "\<And>x. lo \<le> x \<Longrightarrow> lex_combinations_from (Suc k) (Suc x) n = []"
    using Suc.prems by (intro Suc.IH) simp
  then show ?case by (simp del: lex_combinations_from.simps(2) add: lex_combinations_from.simps(2)[of "Suc k"])
qed

lemma lex_combinations_from_hd:
  "lo + k \<le> n \<Longrightarrow> lex_combinations_from k lo n \<noteq> [] \<and> hd (lex_combinations_from k lo n) = [lo..<lo + k]"
proof (induction k arbitrary: lo)
  case 0
  then show ?case by simp
next
  case (Suc k)
  then have lo: "lo < n" by simp
  have IH: "lex_combinations_from k (Suc lo) n \<noteq> [] \<and> hd (lex_combinations_from k (Suc lo) n) = [Suc lo..<Suc lo + k]"
    using Suc.prems by (intro Suc.IH) simp
  have "[lo..<lo + Suc k] = lo # [Suc lo..<Suc lo + k]" by (simp add: upt_conv_Cons del: upt_Suc)
  then show ?case
    using IH by (simp only: lex_combinations_from_rec[OF lo]) (simp add: hd_append hd_map del: upt_Suc)
qed

lemma successive_append:
  "successive n (xs @ ys) =
     (successive n xs \<and> successive n ys \<and>
      (xs \<noteq> [] \<and> ys \<noteq> [] \<longrightarrow> next_combination n (last xs) = Some (hd ys)))"
proof (induction n xs rule: successive.induct)
  case (1 n)
  then show ?case by simp
next
  case (2 n c)
  then show ?case by (cases ys) auto
next
  case (3 n c c' cs)
  then show ?case by auto
qed

lemma successive_map_Cons: "successive n cs \<Longrightarrow> successive n (map ((#) x) cs)"
  by (induction n cs rule: successive.induct) auto

lemma lex_combinations_from_successive:
  "successive n (lex_combinations_from k lo n) \<and>
   (lex_combinations_from k lo n \<noteq> [] \<longrightarrow> next_combination n (last (lex_combinations_from k lo n)) = None)"
proof (induction k arbitrary: lo)
  case 0
  then show ?case by simp
next
  case (Suc k)
  show ?case
  proof (induction "n - lo" arbitrary: lo)
    case 0
    then show ?case by simp
  next
    case (Suc d)
    then have lo: "lo < n" by simp
    let ?A = "lex_combinations_from k (Suc lo) n"
    let ?B = "map ((#) lo) ?A"
    let ?R = "lex_combinations_from (Suc k) (Suc lo) n"
    have L: "lex_combinations_from (Suc k) lo n = ?B @ ?R" using lo by (rule lex_combinations_from_rec)
    have A: "successive n ?A" "?A \<noteq> [] \<longrightarrow> next_combination n (last ?A) = None"
      using \<open>\<And>lo. successive n (lex_combinations_from k lo n) \<and>
        (lex_combinations_from k lo n \<noteq> [] \<longrightarrow> next_combination n (last (lex_combinations_from k lo n)) = None)\<close>
      by blast+
    have R: "successive n ?R" "?R \<noteq> [] \<longrightarrow> next_combination n (last ?R) = None"
      using Suc.hyps(1)[of "Suc lo"] Suc.hyps(2) by auto
    have B: "successive n ?B" using A(1) by (rule successive_map_Cons)
    have lastB: "?B \<noteq> [] \<Longrightarrow> next_combination n (last ?B) =
        (if lo + 1 + k < n then Some [lo + 1..<lo + 2 + k] else None)"
    proof -
      assume "?B \<noteq> []"
      then have ne: "?A \<noteq> []" by simp
      then have len: "length (last ?A) = k" using in_lex_combinations_from[of "last ?A" k "Suc lo" n] by simp
      have "last ?B = lo # last ?A" using ne by (simp add: last_map)
      then show ?thesis using A(2) ne len by (simp del: upt_Suc)
    qed
    have Rne: "?R \<noteq> [] \<Longrightarrow> lo + 1 + k < n"
      using lex_combinations_from_empty[of n "Suc lo" k] by (cases "lo + 1 + k < n") auto
    have hdR: "?R \<noteq> [] \<Longrightarrow> hd ?R = [lo + 1..<lo + 2 + k]"
      using lex_combinations_from_hd[of "Suc lo" "Suc k" n] Rne by simp
    have join: "?B \<noteq> [] \<and> ?R \<noteq> [] \<longrightarrow> next_combination n (last ?B) = Some (hd ?R)"
      using lastB hdR Rne by (simp del: upt_Suc)
    have Rempty: "?R = [] \<Longrightarrow> \<not> lo + 1 + k < n"
      using lex_combinations_from_hd[of "Suc lo" "Suc k" n] by auto
    have last_all: "?B @ ?R \<noteq> [] \<longrightarrow> next_combination n (last (?B @ ?R)) = None"
    proof (cases "?R = []")
      case True
      then show ?thesis using lastB Rempty by (simp del: upt_Suc)
    next
      case False
      then show ?thesis using R(2) by simp
    qed
    show ?case unfolding L successive_append using B R(1) join last_all by blast
  qed
qed

lemma sorted_hd_bound:
  "sorted_wrt (<) (c::nat list) \<Longrightarrow> \<forall>x\<in>set c. x < n \<Longrightarrow> c \<noteq> [] \<Longrightarrow> hd c + length c \<le> n"
proof (induction c)
  case Nil
  then show ?case by simp
next
  case (Cons x rest)
  show ?case
  proof (cases "rest = []")
    case True
    then show ?thesis using Cons.prems by simp
  next
    case False
    then have "hd rest + length rest \<le> n" using Cons by simp
    moreover have "x < hd rest" using Cons.prems False by (cases rest) auto
    ultimately show ?thesis by simp
  qed
qed

lemma lex_combinations_from_valid:
  assumes "c \<in> set (lex_combinations_from k lo n)" "1 \<le> k"
  shows "length c = k \<and> c ! 0 \<le> n - k \<and> k \<le> n"
proof -
  from in_lex_combinations_from[OF assms(1)]
  have c: "length c = k" "sorted_wrt (<) c" "\<forall>x\<in>set c. x < n" by auto
  then have "c \<noteq> []" using assms(2) by auto
  then have "hd c + length c \<le> n" using sorted_hd_bound c by blast
  then show ?thesis using c \<open>c \<noteq> []\<close> by (simp add: hd_conv_nth)
qed

lemma length_lex_combinations_from:
  "length (lex_combinations_from k lo n) = (n - lo) choose k"
proof (induction k arbitrary: lo)
  case 0
  then show ?case by simp
next
  case (Suc k)
  show ?case
  proof (induction "n - lo" arbitrary: lo)
    case 0
    then show ?case by simp
  next
    case (Suc d)
    then have lo: "lo < n" by simp
    have e: "n - lo = Suc (n - Suc lo)" using lo by simp
    have "length (lex_combinations_from (Suc k) (Suc lo) n) = (n - Suc lo) choose Suc k"
      using Suc.hyps(1)[of "Suc lo"] Suc.hyps(2) by simp
    moreover have "length (lex_combinations_from k (Suc lo) n) = (n - Suc lo) choose k"
      by (rule \<open>\<And>lo. length (lex_combinations_from k lo n) = (n - lo) choose k\<close>)
    ultimately show ?case
      by (simp only: lex_combinations_from_rec[OF lo] e length_append length_map binomial_Suc_Suc)
  qed
qed


lemma combinations_loop_successive:
  assumes "successive n (c # cs)" "next_combination n (last (c # cs)) = None"
    "\<forall>d\<in>set (c # cs). length d = k \<and> d ! 0 \<le> n - k" "1 \<le> k" "k \<le> n"
  shows "combinations_loop k n c out m =
     Some (out @ concat (map token (c # cs)), m + int (length (c # cs)))"
  using assms(1-3)
proof (induction cs arbitrary: c out m)
  case Nil
  then show ?case
    using combinations_loop_step[of c k n out m] assms(4,5) by simp
next
  case (Cons c' cs)
  have step: "combinations_loop k n c out m = combinations_loop k n c' (out @ token c) (m + 1)"
    using combinations_loop_step[of c k n out m] Cons.prems assms(4,5) by simp
  have "combinations_loop k n c' (out @ token c) (m + 1) =
     Some ((out @ token c) @ concat (map token (c' # cs)), (m + 1) + int (length (c' # cs)))"
    using Cons.prems by (intro Cons.IH) auto
  then show ?case using step by simp
qed

lemma combinations_eq:
  assumes "1 \<le> k" "k \<le> n"
  shows "combinations out k n m =
     Some (out @ concat (map token (lex_combinations k n)), m + int (n choose k))"
proof -
  let ?L = "lex_combinations_from k 0 n"
  have hd: "?L \<noteq> [] \<and> hd ?L = [0..<k]"
    using lex_combinations_from_hd[of 0 k n] assms by simp
  then obtain cs where L: "?L = [0..<k] # cs" by (cases ?L) auto
  have 1: "successive n ([0..<k] # cs)" "next_combination n (last ([0..<k] # cs)) = None"
    using lex_combinations_from_successive[of n k 0] hd unfolding L by auto
  have 2: "\<forall>d\<in>set ([0..<k] # cs). length d = k \<and> d ! 0 \<le> n - k"
    using lex_combinations_from_valid[of _ k 0 n] assms(1) unfolding L by blast
  have "combinations_loop k n [0..<k] out m =
     Some (out @ concat (map token ([0..<k] # cs)), m + int (length ([0..<k] # cs)))"
    using 1 2 assms by (rule combinations_loop_successive)
  moreover have "length ([0..<k] # cs) = n choose k"
    using length_lex_combinations_from[of k 0 n] unfolding L by simp
  ultimately show ?thesis
    using assms L by (simp add: combinations_def lex_combinations_def)
qed

lemma intermediate_count_Suc:
  "2 \<le> k \<Longrightarrow> intermediate_count n k = intermediate_count n (k - 1) + (n choose k)"
proof -
  assume "2 \<le> k"
  then obtain j where k: "k = Suc j" "2 \<le> Suc j" by (cases k) auto
  then show ?thesis by (simp add: intermediate_count_def)
qed

lemma intermediate_count_set: "intermediate_count n K = (\<Sum>k\<in>{2..<Suc K}. n choose k)"
  unfolding intermediate_count_def
  by (simp add: interv_sum_list_conv_sum_set_nat del: upt_Suc)

lemma intermediate_count_full:
  assumes "2 \<le> n"
  shows "intermediate_count n (n - 1) + n + 2 = 2 ^ n"
proof -
  have s: "{..n} = {0, 1} \<union> {2..<n} \<union> {n}" using assms by auto
  have "(\<Sum>k\<le>n. n choose k) = (\<Sum>k\<in>{0, 1}. n choose k) + (\<Sum>k\<in>{2..<n}. n choose k) + (\<Sum>k\<in>{n}. n choose k)"
    unfolding s using assms by (subst sum.union_disjoint; simp)+
  then have "2 ^ n = 1 + n + (\<Sum>k\<in>{2..<n}. n choose k) + 1"
    by (simp add: choose_row_sum)
  moreover have "Suc (n - 1) = n" using assms by simp
  ultimately show ?thesis by (simp add: intermediate_count_set)
qed

lemma intermediate_count_mono: "K \<le> K' \<Longrightarrow> intermediate_count n K \<le> intermediate_count n K'"
  unfolding intermediate_count_set by (rule sum_mono2) auto

lemma powerset_loop_eq:
  assumes "2 \<le> k" "k \<le> n"
  shows "powerset_loop cfg n k combo (int (n + 1 + intermediate_count n (k - 1))) =
     Some (combo @ concat (map token (concat (map (\<lambda>j. lex_combinations j n)
              [k..<Suc (case find (\<lambda>K. maxh cfg \<le> int (intermediate_count n K)) [k..<n] of
                          Some K \<Rightarrow> K | None \<Rightarrow> n - 1)]))),
           int (n + 1 + intermediate_count n
              (case find (\<lambda>K. maxh cfg \<le> int (intermediate_count n K)) [k..<n] of
                          Some K \<Rightarrow> K | None \<Rightarrow> n - 1)))"
  using assms
proof (induction "n - k" arbitrary: k combo)
  case 0
  then have k: "k = n" by simp
  have "Suc (n - 1) = n" using 0 by simp
  then show ?case unfolding k by (subst powerset_loop.simps) simp
next
  case (Suc d)
  then have kn: "k < n" by simp
  let ?P = "\<lambda>K. maxh cfg \<le> int (intermediate_count n K)"
  let ?m = "int (n + 1 + intermediate_count n (k - 1))"
  let ?combo' = "combo @ concat (map token (lex_combinations k n))"
  have ic: "intermediate_count n k = intermediate_count n (k - 1) + (n choose k)"
    using Suc.prems by (intro intermediate_count_Suc)
  have comb: "combinations combo k n ?m = Some (?combo', int (n + 1 + intermediate_count n k))"
    using combinations_eq[of k n combo ?m] Suc.prems ic by simp
  have tst: "(maxh cfg \<le> int (n + 1 + intermediate_count n k) - int n - 1) = ?P k" by simp
  have upt: "[k..<n] = k # [Suc k..<n]" using kn by (simp add: upt_conv_Cons)
  show ?case
  proof (cases "?P k")
    case True
    have "powerset_loop cfg n k combo ?m = Some (?combo', int (n + 1 + intermediate_count n k))"
      using kn comb tst True by (subst powerset_loop.simps) (simp del: upt_Suc)
    moreover have "find ?P [k..<n] = Some k" using True upt by simp
    ultimately show ?thesis by simp
  next
    case False
    have "powerset_loop cfg n k combo ?m =
          powerset_loop cfg n (k + 1) ?combo' (int (n + 1 + intermediate_count n ((k + 1) - 1)))"
      using kn comb tst False by (subst powerset_loop.simps) (simp del: upt_Suc)
    moreover have f: "find ?P [k..<n] = find ?P [Suc k..<n]" using False upt by simp
    moreover define K where "K = (case find ?P [Suc k..<n] of Some K \<Rightarrow> K | None \<Rightarrow> n - 1)"
    moreover have "powerset_loop cfg n (k + 1) ?combo' (int (n + 1 + intermediate_count n ((k + 1) - 1))) =
       Some (?combo' @ concat (map token (concat (map (\<lambda>j. lex_combinations j n) [k + 1..<Suc K]))),
             int (n + 1 + intermediate_count n K))"
      unfolding K_def using Suc.hyps(1)[of "k + 1" ?combo'] Suc.hyps(2) Suc.prems kn by simp
    moreover have "k \<le> K"
    proof (cases "find ?P [Suc k..<n]")
      case None
      then show ?thesis using kn by (simp add: K_def)
    next
      case (Some j)
      then have "j \<in> set [Suc k..<n]" by (auto simp: find_Some_iff in_set_conv_nth)
      then show ?thesis using Some by (simp add: K_def)
    qed
    then have "[k..<Suc K] = k # [k + 1..<Suc K]" by (simp add: upt_conv_Cons del: upt_Suc)
    ultimately show ?thesis by (simp del: upt_Suc)
  qed
qed

lemma length_enumeration_upto:
  "2 \<le> n \<Longrightarrow> length (enumeration_upto n K) = n + 1 + intermediate_count n K"
  by (simp add: enumeration_upto_def lex_combinations_def length_lex_combinations_from
      length_concat intermediate_count_def comp_def del: upt_Suc)

lemma powerset_eq:
  assumes "2 \<le> n"
  shows "powerset cfg n =
     Some (concat (map token (enumeration_upto n (stop_size (maxh cfg) n))),
           int (length (enumeration_upto n (stop_size (maxh cfg) n))))"
proof -
  have 1: "combinations [] 1 n 0 = Some (concat (map token (lex_combinations 1 n)), int n)"
    using combinations_eq[of 1 n "[]" 0] assms by simp
  have 2: "combinations (concat (map token (lex_combinations 1 n))) n n (int n) =
     Some (concat (map token (lex_combinations 1 n)) @ concat (map token (lex_combinations n n)), int (n + 1 + intermediate_count n (2 - 1)))"
    using combinations_eq[of n n _ "int n"] assms by (simp add: intermediate_count_def)
  define K where "K = stop_size (maxh cfg) n"
  have "powerset cfg n =
     Some (concat (map token (lex_combinations 1 n)) @ concat (map token (lex_combinations n n)) @
           concat (map token (concat (map (\<lambda>j. lex_combinations j n) [2..<Suc K]))),
           int (n + 1 + intermediate_count n K))"
    using assms 1 2 powerset_loop_eq[of 2 n cfg]
    by (simp add: powerset_def stop_size_def K_def del: upt_Suc)
  moreover have "concat (map token (enumeration_upto n K)) =
     concat (map token (lex_combinations 1 n)) @ concat (map token (lex_combinations n n)) @
     concat (map token (concat (map (\<lambda>j. lex_combinations j n) [2..<Suc K])))"
    by (simp add: enumeration_upto_def del: upt_Suc)
  ultimately show ?thesis
    unfolding K_def[symmetric] by (simp only: length_enumeration_upto[OF assms])
qed

lemma stop_size_props:
  assumes "2 \<le> n"
  shows "stop_size mh n \<le> n - 1"
    and "\<forall>j. 2 \<le> j \<and> j < stop_size mh n \<longrightarrow> int (intermediate_count n j) < mh"
    and "stop_size mh n < n - 1 \<longrightarrow> mh \<le> int (intermediate_count n (stop_size mh n))"
proof -
  let ?P = "\<lambda>K. mh \<le> int (intermediate_count n K)"
  show "stop_size mh n \<le> n - 1"
  proof (cases "find ?P [2..<n]")
    case None
    then show ?thesis by (simp add: stop_size_def)
  next
    case (Some K)
    then have "K \<in> set [2..<n]" by (auto simp: find_Some_iff in_set_conv_nth)
    then have "K \<le> n - 1" by auto
    then show ?thesis using Some by (simp add: stop_size_def)
  qed
  show "\<forall>j. 2 \<le> j \<and> j < stop_size mh n \<longrightarrow> int (intermediate_count n j) < mh"
  proof (cases "find ?P [2..<n]")
    case None
    then have "\<forall>j\<in>set [2..<n]. \<not> ?P j" by (simp add: find_None_iff)
    then have "\<And>j. 2 \<le> j \<Longrightarrow> j < n - 1 \<Longrightarrow> int (intermediate_count n j) < mh"
      by (simp add: not_le)
    then show ?thesis using None by (simp add: stop_size_def)
  next
    case (Some K)
    then obtain i where i: "i < length [2..<n]" "[2..<n] ! i = K" "\<forall>j<i. \<not> ?P ([2..<n] ! j)"
      by (auto simp: find_Some_iff)
    have K: "K = 2 + i" using i(1,2) by simp
    have "\<And>j. 2 \<le> j \<Longrightarrow> j < K \<Longrightarrow> \<not> ?P j"
    proof -
      fix j assume j: "2 \<le> j" "j < K"
      then have "j - 2 < i" using K by simp
      then have "\<not> ?P ([2..<n] ! (j - 2))" using i(3) by blast
      moreover have "[2..<n] ! (j - 2) = j" using j K i(1) by simp
      ultimately show "\<not> ?P j" by simp
    qed
    then show ?thesis using Some by (auto simp: stop_size_def not_le)
  qed
  show "stop_size mh n < n - 1 \<longrightarrow> mh \<le> int (intermediate_count n (stop_size mh n))"
  proof (cases "find ?P [2..<n]")
    case None
    then show ?thesis by (simp add: stop_size_def)
  next
    case (Some K)
    then have "?P K" by (auto simp: find_Some_iff)
    then show ?thesis using Some by (simp add: stop_size_def)
  qed
qed

text \<open>
  C3 (amended). For a set of \<open>n \<ge> 2\<close> variants and every \<open>maxh\<close>, \<open>powerset\<close> returns
  the tokens of all \<open>n\<close> singletons, then the full set, then the sizes \<open>2, 3, .., K\<close> in
  ascending order, each size complete and in lexicographic order, and \<open>ncombos\<close> is
  their number, \<open>n + 1 +\<close> the number of combinations of the sizes \<open>2, .., K\<close>. Here \<open>K\<close>
  is the first size in \<open>2, .., n-1\<close> after which that number has reached \<open>maxh\<close>, and
  \<open>n-1\<close> if there is none (then \<open>ncombos = 2^n - 1\<close>). A size is never cut short, so
  \<open>ncombos\<close> is at least \<open>min(2^n - 1, maxh + n + 1)\<close> and at most \<open>2^n - 1\<close>.
\<close>

theorem powerset_enumeration:
  assumes "2 \<le> n"
  shows "powerset cfg n =
       Some (concat (map token (enumeration_upto n (stop_size (maxh cfg) n))),
             int (length (enumeration_upto n (stop_size (maxh cfg) n)))) \<and>
     length (enumeration_upto n (stop_size (maxh cfg) n)) =
       n + 1 + intermediate_count n (stop_size (maxh cfg) n) \<and>
     stop_size (maxh cfg) n \<le> n - 1 \<and>
     (\<forall>j. 2 \<le> j \<and> j < stop_size (maxh cfg) n \<longrightarrow> int (intermediate_count n j) < maxh cfg) \<and>
     (stop_size (maxh cfg) n < n - 1 \<longrightarrow>
        maxh cfg \<le> int (intermediate_count n (stop_size (maxh cfg) n))) \<and>
     (stop_size (maxh cfg) n = n - 1 \<longrightarrow>
        int (length (enumeration_upto n (stop_size (maxh cfg) n))) = 2 ^ n - 1) \<and>
     min (2 ^ n - 1) (maxh cfg + int n + 1) \<le> int (length (enumeration_upto n (stop_size (maxh cfg) n))) \<and>
     int (length (enumeration_upto n (stop_size (maxh cfg) n))) \<le> 2 ^ n - 1"
proof -
  define K where "K = stop_size (maxh cfg) n"
  have len: "length (enumeration_upto n K) = n + 1 + intermediate_count n K"
    using assms by (rule length_enumeration_upto)
  have K1: "K \<le> n - 1"
    and K2: "\<forall>j. 2 \<le> j \<and> j < K \<longrightarrow> int (intermediate_count n j) < maxh cfg"
    and K3: "K < n - 1 \<longrightarrow> maxh cfg \<le> int (intermediate_count n K)"
    unfolding K_def using stop_size_props[OF assms, of "maxh cfg"] by blast+
  have full: "int (intermediate_count n (n - 1)) + int n + 2 = 2 ^ n"
    using intermediate_count_full[OF assms] by (metis of_nat_add of_nat_numeral of_nat_power)
  have upper: "int (intermediate_count n K) \<le> int (intermediate_count n (n - 1))"
    using intermediate_count_mono[OF K1, of n] by simp
  have 6: "K = n - 1 \<longrightarrow> int (length (enumeration_upto n K)) = 2 ^ n - 1"
    using len full by auto
  have 8: "int (length (enumeration_upto n K)) \<le> 2 ^ n - 1"
    using len full upper by simp
  have 7: "min (2 ^ n - 1) (maxh cfg + int n + 1) \<le> int (length (enumeration_upto n K))"
  proof (cases "K < n - 1")
    case True
    then have "maxh cfg \<le> int (intermediate_count n K)" using K3 by simp
    then show ?thesis using len by simp
  next
    case False
    then have "K = n - 1" using K1 by simp
    then show ?thesis using 6 by simp
  qed
  show ?thesis
    unfolding K_def[symmetric] using powerset_eq[OF assms, of cfg] len K1 K2 K3 6 7 8
    unfolding K_def[symmetric] by blast
qed

text \<open>
  C3 as stated fails: with \<open>n = 3\<close> and \<open>maxh = 1\<close> the enumeration holds 7 combinations,
  not \<open>min(2^3 - 1, 1 + 3 + 1) = 5\<close>: the cap is tested only after a size is complete.
\<close>

theorem powerset_count_counterexample:
  "map_option snd (powerset (defaults\<lparr>maxh := 1\<rparr>) 3) = Some 7 \<and>
   min (2 ^ 3 - 1) (maxh (defaults\<lparr>maxh := 1\<rparr>) + 3 + 1) = (5::int)"
  using powerset_eq[of 3 "defaults\<lparr>maxh := 1\<rparr>"]
  by (simp add: length_enumeration_upto stop_size_def intermediate_count_def binomial_eq_0 numeral_3_eq_3 numeral_2_eq_2)

lemma enumeration_upto_4_2:
  "enumeration_upto 4 (stop_size 0 4) =
     [[0], [1], [2], [3], [0, 1, 2, 3], [0, 1], [0, 2], [0, 3], [1, 2], [1, 3], [2, 3]]"
  by code_simp

theorem powerset_enumeration_witness:
  "(2::nat) \<le> 4 \<and>
   powerset (defaults\<lparr>maxh := 0\<rparr>) 4 =
     Some (concat (map token
       [[0], [1], [2], [3], [0, 1, 2, 3], [0, 1], [0, 2], [0, 3], [1, 2], [1, 3], [2, 3]]), 11)"
  using powerset_enumeration[of 4 "defaults\<lparr>maxh := 0\<rparr>"]
  by (simp add: enumeration_upto_4_2)

subsection \<open>Grouper\<close>

lemma group_loop_inv:
  assumes "cur \<noteq> []" "successively R cur"
    "successively (\<lambda>a b. nearby cfg a b \<longrightarrow> R a b) (cur @ vs)"
  shows "\<forall>s\<in>set (group_loop cfg cur vs). s \<noteq> [] \<and> successively R s"
  using assms
proof (induction vs arbitrary: cur)
  case Nil
  then show ?case by simp
next
  case (Cons v vs)
  have q: "nearby cfg (last cur) v \<longrightarrow> R (last cur) v" "successively (\<lambda>a b. nearby cfg a b \<longrightarrow> R a b) (v # vs)"
    using Cons.prems(1,3) by (simp_all add: successively_append_iff)
  show ?case
  proof (cases "nearby cfg (last cur) v")
    case True
    have "successively R (cur @ [v])"
      using Cons.prems(1,2) q(1) True by (simp add: successively_append_iff)
    then have "\<forall>s\<in>set (group_loop cfg (cur @ [v]) vs). s \<noteq> [] \<and> successively R s"
      using Cons.prems(3) by (intro Cons.IH) simp_all
    then show ?thesis using True by simp
  next
    case False
    have "\<forall>s\<in>set (group_loop cfg [v] vs). s \<noteq> [] \<and> successively R s"
      using q(2) by (intro Cons.IH) simp_all
    then show ?thesis using False Cons.prems(1,2) by simp
  qed
qed

lemma group_sets_inv:
  assumes "successively (\<lambda>a b. nearby cfg a b \<longrightarrow> R a b) vs"
  shows "\<forall>s\<in>set (group_sets cfg vs). s \<noteq> [] \<and> successively R s"
proof (cases vs)
  case Nil
  then show ?thesis by simp
next
  case (Cons v vs')
  then show ?thesis using group_loop_inv[of "[v]" R cfg vs'] assms by simp
qed

lemma group_loop_singletons:
  "\<not> 0 < distlim cfg \<Longrightarrow> group_loop cfg cur vs = cur # map (\<lambda>v. [v]) vs"
  by (induction vs arbitrary: cur) (simp_all add: nearby_def)

lemma group_sets_singletons:
  "\<not> 0 < distlim cfg \<Longrightarrow> group_sets cfg vs = map (\<lambda>v. [v]) vs"
  by (cases vs) (simp_all add: group_loop_singletons)

lemma split_pass_singletons: "split_pass (map (\<lambda>v. [v]) vs) = (map (\<lambda>v. [v]) vs, [], False)"
  by (induction vs) simp_all

lemma group_variants_singletons:
  "\<not> 0 < distlim cfg \<Longrightarrow> group_variants cfg vs = Some (map (\<lambda>v. [v]) vs)"
  by (simp add: group_variants_def group_sets_singletons split_loop.simps[of _ "map (\<lambda>v. [v]) vs"]
      split_pass_singletons)

lemma successively_drop_twin:
  assumes "successively R (xs @ a # b # ys)" "\<forall>z. R z a = R z b \<and> R a z = R b z"
  shows "successively R (xs @ a # ys) \<and> successively R (xs @ b # ys)"
proof -
  have 1: "successively R xs" and 2: "xs \<noteq> [] \<longrightarrow> R (last xs) a" and 3: "successively R (b # ys)"
    using assms(1) by (auto simp: successively_append_iff)
  have 4: "successively R (a # ys)" using 3 assms(2) by (cases ys) simp_all
  have 5: "xs \<noteq> [] \<longrightarrow> R (last xs) b" using 2 assms(2) by simp
  show ?thesis using 1 2 3 4 5 by (auto simp: successively_append_iff)
qed

lemma adjacent_split:
  assumes "j + 1 < length s"
  shows "s = take j s @ s ! j # s ! (j + 1) # drop (j + 2) s"
    and "vector_del s j = take j s @ s ! (j + 1) # drop (j + 2) s"
    and "vector_del s (j + 1) = take j s @ s ! j # drop (j + 2) s"
proof -
  have j: "j < length s" using assms by simp
  show 1: "s = take j s @ s ! j # s ! (j + 1) # drop (j + 2) s"
    using assms j by (metis Cons_nth_drop_Suc append_take_drop_id add_2_eq_Suc' Suc_eq_plus1)
  have d: "drop (Suc j) s = s ! (j + 1) # drop (j + 2) s"
    using assms by (metis Cons_nth_drop_Suc add_2_eq_Suc' Suc_eq_plus1)
  show "vector_del s j = take j s @ s ! (j + 1) # drop (j + 2) s"
    by (simp add: vector_del_def d)
  have "take (j + 1) s = take j s @ [s ! j]" using j by (simp add: take_Suc_conv_app_nth)
  then show "vector_del s (j + 1) = take j s @ s ! j # drop (j + 2) s"
    by (simp add: vector_del_def)
qed

lemma successively_nth:
  "successively R s \<Longrightarrow> j + 1 < length s \<Longrightarrow> R (s ! j) (s ! (j + 1))"
  using adjacent_split(1)[of j s] by (metis successively_append_iff successively.simps(3))

lemma split_inner_inv:
  assumes "twin_closed R"
  shows "split_inner s j dups flag = (s', dups', flag') \<Longrightarrow>
     s \<noteq> [] \<and> successively R s \<Longrightarrow> \<forall>d\<in>set dups. d \<noteq> [] \<and> successively R d \<Longrightarrow>
     (s' \<noteq> [] \<and> successively R s') \<and> (\<forall>d\<in>set dups'. d \<noteq> [] \<and> successively R d)"
proof (induction s j dups flag rule: split_inner.induct)
  case (1 s j dups flag)
  show ?case
  proof (cases "j + 1 < length s")
    case False
    then show ?thesis using "1.prems" by (simp add: split_inner.simps[of s j])
  next
    case True
    show ?thesis
    proof (cases "v_pos (s ! j) = v_pos (s ! (j + 1))")
      case eq: True
      have r: "split_inner (vector_del s j) (j + 1) (dups @ [vector_del s (j + 1)]) True = (s', dups', flag')"
        using True eq "1.prems"(1) by (simp add: split_inner.simps[of s j])
      have "R (s ! j) (s ! (j + 1))" using "1.prems"(2) True successively_nth by blast
      then have tw: "\<forall>z. R z (s ! j) = R z (s ! (j + 1)) \<and> R (s ! j) z = R (s ! (j + 1)) z"
        using assms eq unfolding twin_closed_def by blast
      have "successively R (take j s @ s ! j # s ! (j + 1) # drop (j + 2) s)"
        using "1.prems"(2) adjacent_split(1)[OF True] by simp
      from successively_drop_twin[OF this tw]
      have "successively R (vector_del s (j + 1)) \<and> successively R (vector_del s j)"
        using adjacent_split(2,3)[OF True] by simp
      moreover have "vector_del s j \<noteq> [] \<and> vector_del s (j + 1) \<noteq> []"
        using adjacent_split(2,3)[OF True] by simp
      ultimately show ?thesis
        using "1.IH"(1)[OF True eq r] "1.prems"(3) by simp
    next
      case neq: False
      have r: "split_inner s (j + 1) dups flag = (s', dups', flag')"
        using True neq "1.prems"(1) by (simp add: split_inner.simps[of s j])
      show ?thesis using "1.IH"(2)[OF True neq r] "1.prems"(2,3) by simp
    qed
  qed
qed

lemma split_pass_inv:
  assumes "twin_closed R"
  shows "split_pass sets = (sets', dups, flag) \<Longrightarrow>
     \<forall>s\<in>set sets. s \<noteq> [] \<and> successively R s \<Longrightarrow>
     \<forall>s\<in>set (sets' @ dups). s \<noteq> [] \<and> successively R s"
proof (induction sets arbitrary: sets' dups flag)
  case Nil
  then show ?case by simp
next
  case (Cons s ss)
  obtain s1 d f where a: "(if length s = 1 then (s, [], False) else split_inner s 0 [] False) = (s1, d, f)"
    by (metis prod_cases3)
  obtain ss1 ds fs where b: "split_pass ss = (ss1, ds, fs)" by (metis prod_cases3)
  have r: "sets' = s1 # ss1" "dups = d @ ds"
    using Cons.prems(1) a b by simp_all
  have "(s1 \<noteq> [] \<and> successively R s1) \<and> (\<forall>x\<in>set d. x \<noteq> [] \<and> successively R x)"
  proof (cases "length s = 1")
    case True
    then show ?thesis using a Cons.prems(2) by simp
  next
    case False
    then have "split_inner s 0 [] False = (s1, d, f)" using a by simp
    from split_inner_inv[OF assms this] Cons.prems(2) show ?thesis by simp
  qed
  moreover have "\<forall>s\<in>set (ss1 @ ds). s \<noteq> [] \<and> successively R s"
    using Cons.IH[OF b] Cons.prems(2) by simp
  ultimately show ?case using r by auto
qed

lemma split_inner_flag:
  "split_inner s j dups flag = (s', dups', flag') \<Longrightarrow> flag \<Longrightarrow> flag'"
proof (induction s j dups flag rule: split_inner.induct)
  case (1 s j dups flag)
  show ?case
  proof (cases "j + 1 < length s")
    case False
    then show ?thesis using "1.prems" by (simp add: split_inner.simps[of s j])
  next
    case True
    show ?thesis
    proof (cases "v_pos (s ! j) = v_pos (s ! (j + 1))")
      case eq: True
      then have "split_inner (vector_del s j) (j + 1) (dups @ [vector_del s (j + 1)]) True = (s', dups', flag')"
        using True "1.prems" by (simp add: split_inner.simps[of s j])
      from "1.IH"(1)[OF True eq this] show ?thesis by simp
    next
      case neq: False
      then have "split_inner s (j + 1) dups flag = (s', dups', flag')"
        using True "1.prems" by (simp add: split_inner.simps[of s j])
      from "1.IH"(2)[OF True neq this] "1.prems"(2) show ?thesis by simp
    qed
  qed
qed

lemma split_inner_fix:
  "split_inner s j dups flag = (s', dups', False) \<Longrightarrow>
     s' = s \<and> dups' = dups \<and> (\<forall>i. j \<le> i \<and> i + 1 < length s \<longrightarrow> v_pos (s ! i) \<noteq> v_pos (s ! (i + 1)))"
proof (induction s j dups flag rule: split_inner.induct)
  case (1 s j dups flag)
  show ?case
  proof (cases "j + 1 < length s")
    case False
    then show ?thesis using "1.prems" by (simp add: split_inner.simps[of s j])
  next
    case True
    show ?thesis
    proof (cases "v_pos (s ! j) = v_pos (s ! (j + 1))")
      case eq: True
      have r: "split_inner (vector_del s j) (j + 1) (dups @ [vector_del s (j + 1)]) True = (s', dups', False)"
        using True eq "1.prems"(1) by (simp add: split_inner.simps[of s j])
      then show ?thesis using split_inner_flag[OF r] by simp
    next
      case neq: False
      have r: "split_inner s (j + 1) dups flag = (s', dups', False)"
        using True neq "1.prems"(1) by (simp add: split_inner.simps[of s j])
      have "\<forall>i. j + 1 \<le> i \<and> i + 1 < length s \<longrightarrow> v_pos (s ! i) \<noteq> v_pos (s ! (i + 1))"
        using "1.IH"(2)[OF True neq r] by simp
      then have "\<forall>i. j \<le> i \<and> i + 1 < length s \<longrightarrow> v_pos (s ! i) \<noteq> v_pos (s ! (i + 1))"
        using neq by (metis Suc_eq_plus1 Suc_leI le_neq_implies_less)
      then show ?thesis using "1.IH"(2)[OF True neq r] by simp
    qed
  qed
qed


lemma successively_of_nth:
  "(\<forall>i. i + 1 < length s \<longrightarrow> R (s ! i) (s ! (i + 1))) \<Longrightarrow> successively R s"
proof (induction s rule: induct_list012)
  case 1
  then show ?case by simp
next
  case (2 x)
  then show ?case by simp
next
  case (3 x y zs)
  have "R x y" using "3.prems"[rule_format, of 0] by simp
  moreover have "\<forall>i. i + 1 < length (y # zs) \<longrightarrow> R ((y # zs) ! i) ((y # zs) ! (i + 1))"
    using "3.prems" by (metis Suc_eq_plus1 Suc_less_eq length_Cons nth_Cons_Suc)
  ultimately show ?case using "3.IH"(2) by simp
qed

lemma split_pass_fix:
  "split_pass sets = (sets', dups, False) \<Longrightarrow>
     sets' = sets \<and> dups = [] \<and> (\<forall>s\<in>set sets. successively (\<lambda>a b. v_pos a \<noteq> v_pos b) s)"
proof (induction sets arbitrary: sets' dups)
  case Nil
  then show ?case by simp
next
  case (Cons s ss)
  obtain s1 d f where a: "(if length s = 1 then (s, [], False) else split_inner s 0 [] False) = (s1, d, f)"
    by (metis prod_cases3)
  obtain ss1 ds fs where b: "split_pass ss = (ss1, ds, fs)" by (metis prod_cases3)
  have r: "sets' = s1 # ss1" "dups = d @ ds" "\<not> f" "\<not> fs"
    using Cons.prems(1) a b by simp_all
  have "s1 = s \<and> d = [] \<and> successively (\<lambda>a b. v_pos a \<noteq> v_pos b) s"
  proof (cases "length s = 1")
    case True
    then obtain x where "s = [x]" by (cases s) auto
    then show ?thesis using a by auto
  next
    case False
    then have "split_inner s 0 [] False = (s1, d, False)" using a r(3) by simp
    from split_inner_fix[OF this] show ?thesis by (simp add: successively_of_nth)
  qed
  then show ?case using Cons.IH[of ss1 ds] b r by simp
qed

lemma split_loop_inv:
  assumes "twin_closed R"
  shows "split_loop cap sets = Some res \<Longrightarrow> \<forall>s\<in>set sets. s \<noteq> [] \<and> successively R s \<Longrightarrow>
     \<forall>s\<in>set res. s \<noteq> [] \<and> successively R s \<and> successively (\<lambda>a b. v_pos a \<noteq> v_pos b) s"
proof (induction cap sets rule: split_loop.induct)
  case (1 cap sets)
  obtain sets' dups flag where p: "split_pass sets = (sets', dups, flag)" by (metis prod_cases3)
  have c: "\<not> cap < length sets + length dups"
    using "1.prems"(1) p by (simp add: split_loop.simps[of cap sets] split: if_splits)
  have inv: "\<forall>s\<in>set (sets' @ dups). s \<noteq> [] \<and> successively R s"
    using split_pass_inv[OF assms p] "1.prems"(2) by blast
  show ?case
  proof (cases flag)
    case True
    then have "split_loop cap (sets' @ dups) = Some res"
      using "1.prems"(1) p c by (simp add: split_loop.simps[of cap sets])
    from "1.IH"[OF p[symmetric] refl c True this inv] show ?thesis .
  next
    case False
    then have res: "res = sets' @ dups"
      using "1.prems"(1) p c by (simp add: split_loop.simps[of cap sets])
    have "sets' = sets \<and> dups = [] \<and> (\<forall>s\<in>set sets. successively (\<lambda>a b. v_pos a \<noteq> v_pos b) s)"
      using split_pass_fix[of sets sets' dups] p False by simp
    then show ?thesis using res inv by simp
  qed
qed

lemma twin_closed_nearby: "twin_closed (nearby cfg)"
  unfolding twin_closed_def nearby_def by auto

lemma twin_closed_nearby_le: "twin_closed (\<lambda>a b. nearby cfg a b \<and> v_pos a \<le> v_pos b)"
  unfolding twin_closed_def nearby_def by auto

lemma strictly_increasing_distinct:
  assumes "successively (\<lambda>a b. v_pos a \<le> v_pos b) s" "successively (\<lambda>a b. v_pos a \<noteq> v_pos b) s"
  shows "distinct (map v_pos s)"
proof -
  have "successively (\<lambda>a b. v_pos a < v_pos b) s"
    using assms by (induction s rule: induct_list012) auto
  then have "successively (<) (map v_pos s)"
    by (induction s rule: induct_list012) auto
  then have "sorted_wrt (<) (map v_pos s)"
    by (simp add: successively_iff_sorted_wrt_strong) 
  then show ?thesis by (simp add: strict_sorted_iff)
qed

text \<open>
  C7. After grouping and same-position splitting, every hypothesis set is non-empty;
  any two consecutive variants of a set share \<open>chr\<close> and their \<open>pos\<close> differ by at most
  \<open>distlim\<close>; when the input is in the order the VCF reader leaves it (within one
  \<open>chr\<close>, \<open>pos\<close> does not decrease from a variant to the next), no set holds two variants
  at the same \<open>pos\<close>; and with \<open>distlim = 0\<close> every set is a singleton. The result
  \<open>Some sets\<close> is a run in which the splitting stays inside the array \<open>var_set\<close>.
\<close>

theorem group_variants_sets:
  assumes "group_variants cfg varlist = Some sets" "s \<in> set sets"
  shows "s \<noteq> [] \<and>
     successively (\<lambda>a b. v_chr a = v_chr b \<and> \<bar>v_pos b - v_pos a\<bar> \<le> distlim cfg) s \<and>
     (successively (\<lambda>a b. v_chr a = v_chr b \<longrightarrow> v_pos a \<le> v_pos b) varlist \<longrightarrow>
        distinct (map v_pos s)) \<and>
     (distlim cfg = 0 \<longrightarrow> length s = 1)"
proof -
  have loop: "split_loop (2 * length varlist) (group_sets cfg varlist) = Some sets"
    using assms(1) by (simp add: group_variants_def)
  have g1: "\<forall>s\<in>set (group_sets cfg varlist). s \<noteq> [] \<and> successively (nearby cfg) s"
    by (rule group_sets_inv) (induction varlist rule: induct_list012, auto)
  have 1: "s \<noteq> [] \<and> successively (nearby cfg) s"
    using split_loop_inv[OF twin_closed_nearby loop g1] assms(2) by blast
  have 2: "successively (\<lambda>a b. v_chr a = v_chr b \<and> \<bar>v_pos b - v_pos a\<bar> \<le> distlim cfg) s"
  proof (rule successively_mono)
    show "successively (nearby cfg) s" using 1 by simp
  qed (auto simp: nearby_def)
  have 3: "distinct (map v_pos s)"
    if sorted: "successively (\<lambda>a b. v_chr a = v_chr b \<longrightarrow> v_pos a \<le> v_pos b) varlist"
  proof -
    have "successively (\<lambda>a b. nearby cfg a b \<longrightarrow> nearby cfg a b \<and> v_pos a \<le> v_pos b) varlist"
      by (rule successively_mono[OF sorted]) (auto simp: nearby_def)
    then have g2: "\<forall>s\<in>set (group_sets cfg varlist). s \<noteq> [] \<and>
        successively (\<lambda>a b. nearby cfg a b \<and> v_pos a \<le> v_pos b) s"
      by (rule group_sets_inv)
    have "successively (\<lambda>a b. nearby cfg a b \<and> v_pos a \<le> v_pos b) s \<and>
          successively (\<lambda>a b. v_pos a \<noteq> v_pos b) s"
      using split_loop_inv[OF twin_closed_nearby_le loop g2] assms(2) by blast
    then have "successively (\<lambda>a b. v_pos a \<le> v_pos b) s \<and> successively (\<lambda>a b. v_pos a \<noteq> v_pos b) s"
      using successively_mono[of "\<lambda>a b. nearby cfg a b \<and> v_pos a \<le> v_pos b" s "\<lambda>a b. v_pos a \<le> v_pos b"]
      by blast
    then show ?thesis using strictly_increasing_distinct by blast
  qed
  have 4: "length s = 1" if "distlim cfg = 0"
    using group_variants_singletons[of cfg varlist] that assms by auto
  show ?thesis using 1 2 3 4 by blast
qed

text \<open>
  Three variants of \<open>chr1\<close>, two of them at position 1, make two sets of two.
\<close>

lemma ex_groups:
  "group_variants defaults [ex_snp_T, ex_snp_G, ex_snp_C] =
     Some [[ex_snp_G, ex_snp_C], [ex_snp_T, ex_snp_C]]"
  by code_simp

lemma ex_groups_0:
  "group_variants (defaults\<lparr>distlim := 0\<rparr>) [ex_snp_T, ex_snp_G, ex_snp_C] =
     Some [[ex_snp_T], [ex_snp_G], [ex_snp_C]]"
  by code_simp

theorem group_variants_sets_witness:
  "[ex_snp_G, ex_snp_C] \<noteq> [] \<and>
   successively (\<lambda>a b. v_chr a = v_chr b \<and> \<bar>v_pos b - v_pos a\<bar> \<le> distlim defaults) [ex_snp_G, ex_snp_C] \<and>
   distinct (map v_pos [ex_snp_G, ex_snp_C]) \<and>
   distlim (defaults\<lparr>distlim := 0\<rparr>) = 0 \<and> length [ex_snp_T] = 1"
  using group_variants_sets [OF ex_groups, of "[ex_snp_G, ex_snp_C]"]
    group_variants_sets [OF ex_groups_0, of "[ex_snp_T]"]
  by (simp add: ex_snp_G_def ex_snp_C_def ex_snp_T_def)

subsection \<open>Output lines\<close>

lemma line_variant_variant_line:
  "line_variant (variant_line var_set var_combo ref_acc results i) = var_set ! i"
  by (simp add: line_variant_def variant_line_def print_variant_def split: prod.splits)

lemma map_line_variant_lines:
  "n \<le> length var_set \<Longrightarrow>
   map line_variant (map (variant_line var_set var_combo ref_acc results) [0..<n]) = take n var_set"
proof -
  assume n: "n \<le> length var_set"
  have "map line_variant (map (variant_line var_set var_combo ref_acc results) [0..<n]) =
        map ((!) var_set) [0..<n]"
    by (simp add: line_variant_variant_line comp_def del: upt_Suc)
  also have "\<dots> = take n var_set"
    using n by (intro nth_equalityI) simp_all
  finally show ?thesis .
qed

lemma evaluate_variants_lines:
  assumes "evaluate_variants cfg fetch refs var_set = Some out"
  shows "(fetch (region_of var_set) = [] \<longrightarrow> out = None) \<and>
         (fetch (region_of var_set) \<noteq> [] \<longrightarrow> (\<exists>block. out = Some block \<and> map line_variant block = var_set))"
proof (cases "fetch (region_of var_set) = []")
  case True
  then show ?thesis using assms
    by (auto simp: evaluate_variants_def Let_def split: list.splits)
next
  case False
  then show ?thesis using assms
    by (auto simp: evaluate_variants_def Let_def map_line_variant_lines simp del: upt_Suc map_map
        split: list.splits option.splits if_splits)
qed

lemma pool_lines:
  "pool cfg fetch refs queue = Some results \<Longrightarrow>
   map line_variant (concat results) =
     concat (map (\<lambda>s. if fetch (region_of s) = [] then [] else s) queue)"
proof (induction queue arbitrary: results)
  case Nil
  then show ?case by simp
next
  case (Cons var_set queue)
  then obtain out rest where e: "evaluate_variants cfg fetch refs var_set = Some out"
    and p: "pool cfg fetch refs queue = Some rest"
    and r: "results = (case out of None \<Rightarrow> rest | Some block \<Rightarrow> block # rest)"
    by (auto split: option.splits)
  have IH: "map line_variant (concat rest) =
     concat (map (\<lambda>s. if fetch (region_of s) = [] then [] else s) queue)"
    using Cons.IH[OF p] .
  show ?case
  proof (cases "fetch (region_of var_set) = []")
    case True
    then have "out = None" using evaluate_variants_lines[OF e] by simp
    then show ?thesis using r IH True by simp
  next
    case False
    then obtain block where "out = Some block" "map line_variant block = var_set"
      using evaluate_variants_lines[OF e] by auto
    then show ?thesis using r IH False by simp
  qed
qed

text \<open>
  C1 (amended). The data lines are the blocks of the hypothesis sets (after grouping
  and same-position splitting), in the order of the queue: a set whose region has at
  least one read gives one line for each of its members, in order, and a set whose
  region has no read gives no line. So the number of lines is the sum of the sizes of
  the sets that have reads: a variant in a set without reads has no line, and a variant
  that the splitting has copied into several sets has one line for each of them.
\<close>

theorem process_variants_lines:
  assumes "process_variants cfg fetch refs var_vector = Some lines"
  shows "\<exists>sets. group_variants cfg var_vector = Some sets \<and>
     map line_variant lines =
       concat (map (\<lambda>s. if fetch (region_of s) = [] then [] else s) (rev sets)) \<and>
     length lines = (\<Sum>s\<leftarrow>sets. if fetch (region_of s) = [] then 0 else length s)"
proof -
  obtain sets results where g: "group_variants cfg var_vector = Some sets"
    and p: "pool cfg fetch refs (rev sets) = Some results" and l: "lines = concat results"
    using assms by (auto simp: process_variants_def split: option.splits)
  have m: "map line_variant lines =
       concat (map (\<lambda>s. if fetch (region_of s) = [] then [] else s) (rev sets))"
    using pool_lines[OF p] l by simp
  have "length lines = length (map line_variant lines)" by simp
  also have "\<dots> = (\<Sum>s\<leftarrow>rev sets. length (if fetch (region_of s) = [] then [] else s))"
    unfolding m by (simp add: length_concat comp_def)
  also have "\<dots> = (\<Sum>s\<leftarrow>rev sets. if fetch (region_of s) = [] then 0 else length s)"
    by (rule arg_cong[where f=sum_list]) (simp add: if_distrib cong: if_cong)
  also have "\<dots> = (\<Sum>s\<leftarrow>sets. if fetch (region_of s) = [] then 0 else length s)"
    by (simp add: rev_map[symmetric])
  finally show ?thesis using g m by blast
qed

text \<open>
  An example run: the three variants above and one unmapped read in every region.
\<close>

lemma ex_powerset_2: "powerset defaults (Suc (Suc 0)) =
    Some ([CHR 0x0A, CHR 0x09, CHR 0x0B, CHR 0x09, CHR 0x0A, CHR 0x0B, CHR 0x09], 3)"
  by code_simp

lemma ex_parse_2:
  "parse_combos [a, b] 3 [CHR 0x0A, CHR 0x09, CHR 0x0B, CHR 0x09, CHR 0x0A, CHR 0x0B, CHR 0x09] 0 =
     Some [[a], [b], [a, b]]"
  by (simp add: parse_combos.simps)

lemma ex_altseqs:
  "construct_altseq ''AAAA'' [ex_snp_G] = Some ''GAAA''"
  "construct_altseq ''AAAA'' [ex_snp_T] = Some ''TAAA''"
  "construct_altseq ''AAAA'' [ex_snp_C] = Some ''AACA''"
  "construct_altseq ''AAAA'' [ex_snp_G, ex_snp_C] = Some ''GACA''"
  "construct_altseq ''AAAA'' [ex_snp_T, ex_snp_C] = Some ''TACA''"
  by code_simp+

lemma ex_flags:
  "read_flags ex_unmapped = (True, False, False)"
  "read_flags ex_secondary = (False, False, True)"
  "read_flags ex_primary = (False, False, False)"
  "read_flags ex_primary_xa = (False, False, False)"
  by code_simp+

lemma ex_chr: "v_chr ex_snp_G = ''chr1''" "v_chr ex_snp_T = ''chr1''" "ex_refs ''chr1'' = Some ''AAAA''"
  by (simp_all add: ex_snp_G_def ex_snp_T_def ex_refs_def)

lemma ex_eval_unmapped:
  assumes "v_chr a = ''chr1''" "construct_altseq ''AAAA'' [a] = Some s1"
    "construct_altseq ''AAAA'' [ex_snp_C] = Some s2" "construct_altseq ''AAAA'' [a, ex_snp_C] = Some s3"
  shows "evaluate_variants defaults (\<lambda>region. [ex_unmapped]) ex_refs [a, ex_snp_C] =
     Some (Some (map (variant_line [a, ex_snp_C] [[a], [ex_snp_C], [a, ex_snp_C]] (Num 0)
                   [(Num 0, Num 0, 0, 0), (Num 0, Num 0, 0, 0), (Num 0, Num 0, 0, 0)]) [0, 1]))"
  using assms
  by (simp add: evaluate_variants_def ex_powerset_2 ex_parse_2 ex_chr eval_read_def ex_flags Let_def)

lemma ex_process:
  "process_variants defaults (\<lambda>region. [ex_unmapped]) ex_refs [ex_snp_T, ex_snp_G, ex_snp_C] =
     Some (map (variant_line [ex_snp_T, ex_snp_C] [[ex_snp_T], [ex_snp_C], [ex_snp_T, ex_snp_C]] (Num 0)
                   [(Num 0, Num 0, 0, 0), (Num 0, Num 0, 0, 0), (Num 0, Num 0, 0, 0)]) [0, 1] @
           map (variant_line [ex_snp_G, ex_snp_C] [[ex_snp_G], [ex_snp_C], [ex_snp_G, ex_snp_C]] (Num 0)
                   [(Num 0, Num 0, 0, 0), (Num 0, Num 0, 0, 0), (Num 0, Num 0, 0, 0)]) [0, 1])"
  by (simp add: process_variants_def ex_groups ex_eval_unmapped ex_chr ex_altseqs)

text \<open>
  C1 as stated fails: one variant and no read in its region give no line at all, and
  the three variants above give four lines, two of them for the variant at position 3.
\<close>

theorem one_line_per_variant_counterexample:
  "process_variants defaults (\<lambda>region. []) ex_refs [ex_snp_G] = Some [] \<and>
   (\<exists>lines. process_variants defaults (\<lambda>region. [ex_unmapped]) ex_refs [ex_snp_T, ex_snp_G, ex_snp_C] =
        Some lines \<and>
      map line_variant lines = [ex_snp_T, ex_snp_C, ex_snp_G, ex_snp_C])"
proof -
  have "process_variants defaults (\<lambda>region. []) ex_refs [ex_snp_G] = Some []"
    by (simp add: process_variants_def group_variants_def split_loop.simps evaluate_variants_def
        defaults_def nearby_def)
  then show ?thesis
    by (simp add: ex_process line_variant_variant_line)
qed

theorem process_variants_lines_witness:
  "\<exists>lines. process_variants defaults (\<lambda>region. [ex_unmapped]) ex_refs [ex_snp_T, ex_snp_G, ex_snp_C] = Some lines \<and>
     map line_variant lines = [ex_snp_T, ex_snp_C, ex_snp_G, ex_snp_C] \<and> length lines = 4"
  using process_variants_lines[OF ex_process] ex_process
  by (simp add: ex_groups)

subsection \<open>Primary alignments only\<close>

lemma eval_read_secondary:
  "pao cfg \<Longrightarrow> is_secondary_read r \<Longrightarrow>
   eval_read cfg refs refseq altseq first_pos first alt_prior het_prior r x = Some x"
  by (auto simp: eval_read_def is_secondary_read_def split: prod.splits)

lemma eval_read_no_multimap:
  "pao cfg \<Longrightarrow>
   eval_read cfg refs refseq altseq first_pos first alt_prior het_prior (r\<lparr>r_multimap := None\<rparr>) x =
   eval_read cfg refs refseq altseq first_pos first alt_prior het_prior r x"
  by (simp add: eval_read_def read_flags_def r_length_def
      cong: if_cong option.case_cong prod.case_cong list.case_cong)

lemma eval_reads_length:
  "eval_reads cfg refs refseq altseq first_pos first alt_prior het_prior rs cells acc = Some (cells', acc') \<Longrightarrow>
   length cells' = length rs"
  by (induction rs arbitrary: cells acc cells' acc') (auto split: list.splits option.splits)

lemma primary_cells_Cons:
  "primary_cells (r # rs) (c # cs) =
     (if is_secondary_read r then primary_cells rs cs else c # primary_cells rs cs)"
  by (simp add: primary_cells_def)

lemma primary_view_Cons:
  "primary_view (r # rs) =
     (if is_secondary_read r then primary_view rs else r\<lparr>r_multimap := None\<rparr> # primary_view rs)"
  by (simp add: primary_view_def)

lemma eval_reads_primary:
  assumes "pao cfg"
  shows "length cells = length rs \<Longrightarrow>
   eval_reads cfg refs refseq altseq first_pos first alt_prior het_prior
       (primary_view rs) (primary_cells rs cells) acc =
   map_option (\<lambda>(c, a). (primary_cells rs c, a))
     (eval_reads cfg refs refseq altseq first_pos first alt_prior het_prior rs cells acc)"
proof (induction rs arbitrary: cells acc)
  case Nil
  then show ?case by (simp add: primary_view_def primary_cells_def)
next
  case (Cons r rs)
  then obtain cell cells' where c: "cells = cell # cells'" "length cells' = length rs"
    by (cases cells) auto
  note IH = Cons.IH[OF c(2)]
  show ?case
  proof (cases "is_secondary_read r")
    case True
    then show ?thesis
      using IH c assms
      by (auto simp: primary_view_Cons primary_cells_Cons eval_read_secondary split: option.splits)
  next
    case False
    then show ?thesis
      using IH c assms
      by (auto simp: primary_view_Cons primary_cells_Cons eval_read_no_multimap split: option.splits)
  qed
qed

lemma eval_combos_primary:
  assumes "pao cfg"
  shows "length cells = length rs \<Longrightarrow>
   eval_combos cfg refs refseq alt_prior het_prior (primary_view rs) first (primary_cells rs cells) ref_acc combos =
   eval_combos cfg refs refseq alt_prior het_prior rs first cells ref_acc combos"
proof (induction combos arbitrary: first cells ref_acc)
  case Nil
  then show ?case by simp
next
  case (Cons var_combo rest)
  show ?case
  proof (cases var_combo)
    case Nil
    then show ?thesis by simp
  next
    case vc: (Cons v0 vs)
    show ?thesis
    proof (cases "construct_altseq refseq var_combo")
      case None
      then show ?thesis using vc by simp
    next
      case (Some altseq)
      let ?acc = "\<lparr>a_ref = ref_acc, a_alt = Num 0, a_het = Num 0, a_ref_count = 0, a_alt_count = 0\<rparr>"
      have e: "eval_reads cfg refs refseq altseq (v_pos v0) first alt_prior het_prior
                 (primary_view rs) (primary_cells rs cells) ?acc =
               map_option (\<lambda>(c, a). (primary_cells rs c, a))
                 (eval_reads cfg refs refseq altseq (v_pos v0) first alt_prior het_prior rs cells ?acc)"
        using eval_reads_primary[OF assms Cons.prems] .
      show ?thesis
      proof (cases "eval_reads cfg refs refseq altseq (v_pos v0) first alt_prior het_prior rs cells ?acc")
        case None
        then show ?thesis using vc Some e by simp
      next
        case s2: (Some p)
        obtain cells1 acc1 where p: "p = (cells1, acc1)" by (cases p)
        have l: "length cells1 = length rs" using eval_reads_length s2 p by blast
        show ?thesis using vc Some e s2 p Cons.IH[OF l] by simp
      qed
    qed
  qed
qed

lemma primary_cells_none:
  "primary_cells rs (map (\<lambda>r. None) rs) = map (\<lambda>r. None) (primary_view rs)"
  by (induction rs) (simp_all add: primary_cells_def primary_view_def)

text \<open>
  C8 (amended). With \<open>pao\<close>, two read sets of a region that are both empty or both
  non-empty, and that agree once the reads flagged SECONDARY or SUPPLEMENTARY are left
  out and the XA tags are removed, give the same result for the hypothesis set.
\<close>

theorem pao_noninterference:
  assumes "pao cfg"
    and "primary_view (fetch1 (region_of var_set)) = primary_view (fetch2 (region_of var_set))"
    and "(fetch1 (region_of var_set) = []) = (fetch2 (region_of var_set) = [])"
  shows "evaluate_variants cfg fetch1 refs var_set = evaluate_variants cfg fetch2 refs var_set"
proof -
  let ?r1 = "fetch1 (region_of var_set)" and ?r2 = "fetch2 (region_of var_set)"
  have "eval_combos cfg refs refseq ap hp ?r1 True (map (\<lambda>r. None) ?r1) (Num 0) combos =
        eval_combos cfg refs refseq ap hp ?r2 True (map (\<lambda>r. None) ?r2) (Num 0) combos"
    for refseq ap hp combos
    using eval_combos_primary[OF assms(1), of "map (\<lambda>r. None) ?r1" ?r1 refs refseq ap hp True "Num 0" combos]
      eval_combos_primary[OF assms(1), of "map (\<lambda>r. None) ?r2" ?r2 refs refseq ap hp True "Num 0" combos]
      assms(2)
    by (simp add: primary_cells_none)
  then have eq: "\<And>refseq ap hp combos.
        eval_combos cfg refs refseq ap hp ?r1 True (map (\<lambda>r. None) ?r1) (Num 0) combos =
        eval_combos cfg refs refseq ap hp ?r2 True (map (\<lambda>r. None) ?r2) (Num 0) combos" .
  show ?thesis
  proof (cases var_set)
    case Nil
    then show ?thesis by (simp add: evaluate_variants_def)
  next
    case (Cons v0 vs)
    show ?thesis
    proof (cases "?r1 = []")
      case True
      then have "?r2 = []" using assms(3) by simp
      then show ?thesis using True unfolding Cons by (simp add: evaluate_variants_def)
    next
      case False
      then have "?r2 \<noteq> []" using assms(3) by simp
      then show ?thesis using False eq unfolding Cons
        by (simp add: evaluate_variants_def Let_def
            cong: option.case_cong prod.case_cong if_cong)
    qed
  qed
qed

lemma ex_pao_on: "pao ex_pao" by (simp add: ex_pao_def)

lemma ex_powerset_1: "powerset ex_pao (Suc 0) = Some ([CHR 0x0A, CHR 0x09], 1)"
  by code_simp

lemma ex_parse_1: "parse_combos [a] 1 [CHR 0x0A, CHR 0x09] 0 = Some [[a]]"
  by (simp add: parse_combos.simps)

text \<open>
  C8 as stated fails: the test for an empty read set comes before the reads are
  filtered. With \<open>pao\<close>, a region whose only read is a secondary alignment gives a line
  for the variant (every sum still at its start value), and the same region without
  that read gives none.
\<close>

theorem secondary_read_counterexample:
  "pao ex_pao \<and>
   primary_view [ex_secondary] = primary_view [] \<and>
   evaluate_variants ex_pao (\<lambda>region. [ex_secondary]) ex_refs [ex_snp_G] =
     Some (Some [variant_line [ex_snp_G] [[ex_snp_G]] (Num 0) [(Num 0, Num 0, 0, 0)] 0]) \<and>
   evaluate_variants ex_pao (\<lambda>region. []) ex_refs [ex_snp_G] = Some None"
  by (simp add: evaluate_variants_def ex_powerset_1 ex_parse_1 ex_altseqs ex_chr eval_read_def
      ex_flags ex_pao_on Let_def primary_view_def is_secondary_read_def)

lemma ex_primary_views:
  "primary_view [ex_secondary, ex_primary] = primary_view [ex_primary_xa]"
  by code_simp

theorem pao_noninterference_witness:
  "evaluate_variants ex_pao (\<lambda>region. [ex_secondary, ex_primary]) ex_refs [ex_snp_G] =
   evaluate_variants ex_pao (\<lambda>region. [ex_primary_xa]) ex_refs [ex_snp_G]"
  using pao_noninterference [of ex_pao "\<lambda>region. [ex_secondary, ex_primary]" "[ex_snp_G]"
      "\<lambda>region. [ex_primary_xa]" ex_refs]
  by (simp add: ex_pao_on ex_primary_views)

subsection \<open>Multi-variant hypothesis\<close>

lemma powerset_loop_mvh:
  "powerset_loop (cfg\<lparr>mvh := b\<rparr>) n k combo ncombos = powerset_loop cfg n k combo ncombos"
proof (induction cfg n k combo ncombos rule: powerset_loop.induct)
  case (1 cfg n k combo ncombos)
  show ?case
    apply (subst powerset_loop.simps)
    apply (subst (2) powerset_loop.simps)
    using 1 by (auto split: option.splits)
qed

lemma powerset_mvh: "powerset (cfg\<lparr>mvh := b\<rparr>) n = powerset cfg n"
  by (auto simp: powerset_def powerset_loop_mvh split: option.splits)

lemma ex_powerset_3:
  "powerset (defaults\<lparr>mvh := True\<rparr>) 3 =
     Some (concat (map token [[0], [1], [2], [0, 1, 2], [0, 1], [0, 2], [1, 2]]), 7)"
  by code_simp

lemma ex_tokens_3:
  "concat (map token [[0], [1], [2], [0, 1, 2], [0, 1], [0, 2], [1, 2]]) =
     [CHR 0x0A, CHR 0x09, CHR 0x0B, CHR 0x09, CHR 0x0C, CHR 0x09,
      CHR 0x0A, CHR 0x0B, CHR 0x0C, CHR 0x09, CHR 0x0A, CHR 0x0B, CHR 0x09,
      CHR 0x0A, CHR 0x0C, CHR 0x09, CHR 0x0B, CHR 0x0C, CHR 0x09]"
  by code_simp

lemma ex_parse_3:
  "parse_combos [a, b, c] 7 (concat (map token [[0], [1], [2], [0, 1, 2], [0, 1], [0, 2], [1, 2]])) 0 =
     Some [[a], [b], [c], [a, b, c], [a, b], [a, c], [b, c]]"
  unfolding ex_tokens_3 by (simp add: parse_combos.simps)

text \<open>
  C4. With \<open>mvh\<close>, \<^verbatim>\<open>powerset\<close> returns what it returns without it: for a set of three
  variants these are the seven combinations, the three pairs among them, and all seven
  are parsed and evaluated. The prior probabilities are the undivided ones and every
  line of the set carries the descriptor of the whole set.
\<close>

theorem mvh_enumeration_unchanged:
  "powerset (cfg\<lparr>mvh := True\<rparr>) n = powerset (cfg\<lparr>mvh := False\<rparr>) n \<and>
   powerset (defaults\<lparr>mvh := True\<rparr>) 3 =
     Some (concat (map token [[0], [1], [2], [0, 1, 2], [0, 1], [0, 2], [1, 2]]), 7) \<and>
   parse_combos [a, b, c] 7 (concat (map token [[0], [1], [2], [0, 1, 2], [0, 1], [0, 2], [1, 2]])) 0 =
     Some [[a], [b], [c], [a, b, c], [a, b], [a, c], [b, c]] \<and>
   alt_prior_of (cfg\<lparr>mvh := True\<rparr>) n ncombos = dlog (dmul (Num (1 / 2)) (dsub (Num 1) (hetbias cfg))) \<and>
   het_prior_of (cfg\<lparr>mvh := True\<rparr>) n ncombos = dlog (dmul (Num (1 / 2)) (hetbias cfg)) \<and>
   o_set (print_variant [a, b, c] i read_count has_alt_count total_p has_alt not_alt) =
     map (\<lambda>v. (v_pos v, v_ref v, v_alt v)) [a, b, c]"
proof (intro conjI)
  show "powerset (cfg\<lparr>mvh := True\<rparr>) n = powerset (cfg\<lparr>mvh := False\<rparr>) n"
    by (simp add: powerset_mvh)
  show "powerset (defaults\<lparr>mvh := True\<rparr>) 3 =
     Some (concat (map token [[0], [1], [2], [0, 1, 2], [0, 1], [0, 2], [1, 2]]), 7)"
    by (rule ex_powerset_3)
  show "parse_combos [a, b, c] 7 (concat (map token [[0], [1], [2], [0, 1, 2], [0, 1], [0, 2], [1, 2]])) 0 =
     Some [[a], [b], [c], [a, b, c], [a, b], [a, c], [b, c]]"
    by (rule ex_parse_3)
  show "alt_prior_of (cfg\<lparr>mvh := True\<rparr>) n ncombos = dlog (dmul (Num (1 / 2)) (dsub (Num 1) (hetbias cfg)))"
    by (simp add: alt_prior_of_def)
  show "het_prior_of (cfg\<lparr>mvh := True\<rparr>) n ncombos = dlog (dmul (Num (1 / 2)) (hetbias cfg))"
    by (simp add: het_prior_of_def)
  show "o_set (print_variant [a, b, c] i read_count has_alt_count total_p has_alt not_alt) =
     map (\<lambda>v. (v_pos v, v_ref v, v_alt v)) [a, b, c]"
    by (simp add: print_variant_def)
qed

subsection \<open>Marginal probabilities\<close>

lemma log_add_exp_ln:
  assumes "0 < x" "0 < y"
  shows "log_add_exp (Num (ln x)) (Num (ln y)) = Num (ln (x + y))"
proof -
  have *: "ln (exp (ln x - ln m) + exp (ln y - ln m)) + ln m = ln (x + y)" if "0 < m" for m :: real
  proof -
    have "exp (ln x - ln m) = x / m" "exp (ln y - ln m) = y / m"
      using assms that by (simp_all add: exp_diff)
    then have "exp (ln x - ln m) + exp (ln y - ln m) = (x + y) / m"
      by (simp add: add_divide_distrib)
    then show ?thesis using assms that by (simp add: ln_div)
  qed
  have pos: "0 < exp (ln x - ln m) + exp (ln y - ln m)" for m :: real
    by (simp add: add_pos_pos)
  show ?thesis
  proof (cases "y < x")
    case True
    then show ?thesis
      using assms *[of x] pos[of x]
      by (simp add: log_add_exp_def dgt_def dsub_def Let_def del: exp_diff)
  next
    case False
    then show ?thesis
      using assms *[of y] pos[of y]
      by (simp add: log_add_exp_def dgt_def dsub_def Let_def)
  qed
qed

lemma dadd_ln:
  assumes "0 < x" "0 < y"
  shows "dadd (Num (ln x)) (Num (ln y)) = Num (ln (x * y))"
  using assms by (simp add: ln_mult)

lemma dsub_ln:
  assumes "0 < x" "0 < y"
  shows "dsub (Num (ln x)) (Num (ln y)) = Num (ln (x / y))"
  using assms by (simp add: ln_div dsub_def)

lemma dgt_ln:
  assumes "0 < x" "0 < y"
  shows "dgt (Num (ln x)) (Num (ln y)) = (y < x)"
  using assms by (simp add: dgt_def)

lemma base_a_ex: "base_a (Num (- 1)) = Num (ln (1 / 10))"
  by (simp add: base_a_def times_M_1_LOG10E_def M_LOG10E_def ln_div)

lemma is_match_ex: "is_match_of [Num (- 1)] = [Num (ln (9 / 10))]"
  by (simp add: is_match_of_def base_a_ex dsub_def del: ln_div)

lemma no_match_ex: "no_match_of [Num (- 1)] = [Num (ln (1 / 30))]"
proof -
  have "ln (1 / 10) - ln 3 = ln ((1 / 10) / 3 :: real)" by (subst ln_div) simp_all
  then show ?thesis
  by (simp add: no_match_of_def base_a_ex LG3_def dsub_def)
qed

lemma matrix_ex:
  "set_prob_matrix ''G'' [im] [nm] = Some [nm, nm, im, nm, nm]"
  by (simp add: set_prob_matrix_def seqnt_map_def eval_nat_numeral upt_rec Let_def)

lemma elsewhere_ex:
  "elsewhere_of [Num (ln (9 / 10))] [Num (ln (1 / 30))] 0 = Some (Num (ln (14 / 15)))"
proof -
  have d: "dsub (Num (ln (1 / 30))) (Num (ln (9 / 10))) = Num (ln (1 / 27))"
    by (subst dsub_ln) simp_all
  have l: "log_sum_exp [Num (ln (1 / 27))] = Some (Num (ln (1 / 27)))"
    by (simp add: log_sum_exp_def dsub_def dgt_def)
  have a: "dadd (Num (ln (9 / 10))) (Num (ln (1 / 27))) = Num (ln (1 / 30))"
    by (subst dadd_ln) simp_all
  have b: "log_add_exp (Num (ln (9 / 10))) (Num (ln (1 / 30))) = Num (ln (14 / 15))"
    by (subst log_add_exp_ln) simp_all
  have e: "dsub (Num r) (dmul LGALPHA (Num 0)) = Num r" for r
    by (simp add: LGALPHA_def dsub_def)
  have z: "dadd (Num 0) (Num r) = Num r" for r
    by simp
  show ?thesis
    unfolding elsewhere_of_def
    by (simp add: dsum_def d l a b e z Let_def del: dadd.simps(1))
qed

lemma calc_prob_distrib_single:
  assumes "length matrix = 5" "seq \<noteq> []" "seqnt_map (hd seq) = Some col" "0 \<le> col" "col < 5"
    "matrix ! nat col = Num x" "- 10 \<le> x"
  shows "calc_prob_distrib matrix 1 seq 0 = Some (Num x)"
proof -
  obtain c cs where seq: "seq = c # cs" using assms(2) by (cases seq) auto
  have cp: "calc_prob matrix 1 seq 0 (Num b) = Some (Num x)" if "b - 10 \<le> x" for b
    unfolding calc_prob_def
    apply (subst calc_prob_loop.simps)
    apply (subst calc_prob_loop.simps)
    using assms that by (simp add: seq dsub_def Let_def)
  have cm: "calc_prob matrix 1 seq (- 1) b = Some (Num 0)" for b
    unfolding calc_prob_def
    apply (subst calc_prob_loop.simps)
    apply (subst calc_prob_loop.simps)
    by simp
  have bl: "(if dgt (Num 0) (Num x) then Num 0 else Num x) = Num (max 0 x)"
    by (simp add: dgt_def max_def)
  have c0: "calc_prob matrix 1 seq 0 (Num (- 1000)) = Some (Num x)"
    using cp[of "- 1000"] assms(7) by simp
  have c1: "calc_prob matrix 1 seq 0 (Num (max 0 x)) = Some (Num x)"
    using cp[of "max 0 x"] assms(7) by simp
  have ne: "\<not> int (length seq) \<le> 0" "\<not> int (length seq) \<le> - 1"
    using seq by simp_all
  have l2: "calc_prob_distrib_loop matrix 1 seq 1 1 (Num x) b = Some (Num x)" for b
    by (subst calc_prob_distrib_loop.simps) simp
  have l1: "calc_prob_distrib_loop matrix 1 seq 1 0 (Num 0) (Num (max 0 x)) = Some (Num x)"
    by (subst calc_prob_distrib_loop.simps)
      (simp add: c1 ne assms(2) Let_def l2 del: calc_prob_distrib_loop.simps)
  have l0: "calc_prob_distrib_loop matrix 1 seq 1 (- 1) (Num 0) (Num x) = Some (Num x)"
    by (subst calc_prob_distrib_loop.simps)
      (simp add: cm ne assms(2) Let_def bl l1 del: calc_prob_distrib_loop.simps)
  show ?thesis
    unfolding calc_prob_distrib_def by (simp add: c0 l0 del: calc_prob_distrib_loop.simps)
qed

lemma dadd_zero_left: "dadd (Num 0) (Num r) = Num r"
  by simp

lemma exp_10_ge: "(36 :: real) \<le> exp 10"
proof -
  have "(6 :: real) \<le> exp 5" using exp_ge_add_one_self[of "5 :: real"] by simp
  then have "(6 :: real) * 6 \<le> exp 5 * exp 5" by (intro mult_mono) simp_all
  also have "exp 5 * exp 5 = exp (10 :: real)" by (simp add: exp_add[symmetric])
  finally show ?thesis by simp
qed

lemma ln_ge_minus_10:
  assumes "1 / 36 \<le> x"
  shows "- 10 \<le> ln (x :: real)"
proof -
  have "exp (- 10 :: real) = 1 / exp 10" by (simp add: exp_minus inverse_eq_divide)
  also have "\<dots> \<le> 1 / 36" using exp_10_ge by (simp add: frac_le)
  finally have "exp (- 10 :: real) \<le> x" using assms by linarith
  moreover have "0 < x" using assms by linarith
  ultimately show ?thesis by (simp add: ln_ge_iff)
qed

lemma ex_matrix_len: "length [nm, nm, im, nm, nm :: double] = 5" by simp

lemma ex_window_ref:
  "calc_prob_distrib [Num (ln (1 / 30)), Num (ln (1 / 30)), Num (ln (9 / 10)), Num (ln (1 / 30)), Num (ln (1 / 30))]
     1 (CHR ''A'' # cs) 0 = Some (Num (ln (1 / 30)))"
  by (rule calc_prob_distrib_single[where col = 0]) (simp_all add: seqnt_map_def ln_ge_minus_10)

lemma ex_window_alt:
  "calc_prob_distrib [Num (ln (1 / 30)), Num (ln (1 / 30)), Num (ln (9 / 10)), Num (ln (1 / 30)), Num (ln (1 / 30))]
     1 (CHR ''G'' # cs) 0 = Some (Num (ln (9 / 10)))"
  by (rule calc_prob_distrib_single[where col = 2]) (simp_all add: seqnt_map_def ln_ge_minus_10)

lemma ex_omega: "dsub LGOMEGA LG1_OMEGA = Num (ln (1 / 9999))"
proof -
  have "ln (1 / 10000) - ln (9999 / 10000) = ln ((1 / 10000) / (9999 / 10000) :: real)"
    by (subst ln_div) simp_all
  then show ?thesis by (simp add: LGOMEGA_def LG1_OMEGA_def dsub_def)
qed

lemma ex_consts:
  "REFPRIOR = Num (ln (1 / 2))" "LG50 = Num (ln (1 / 2))" "LG10 = Num (ln (1 / 10))"
  "LG90 = Num (ln (9 / 10))"
  by (simp_all add: REFPRIOR_def LG50_def LG10_def LG90_def)

lemma ex_priors:
  "alt_prior_of defaults (Suc (Suc 0)) 3 = Num (ln (1 / 12))"
  "het_prior_of defaults (Suc (Suc 0)) 3 = Num (ln (1 / 12))"
  by (simp_all add: alt_prior_of_def het_prior_of_def defaults_def dsub_def)

lemma ex_read_fields:
  "r_qual ex_primary = [Num (- 1)]" "r_qseq ex_primary = ''G''" "r_length ex_primary = 1"
  "r_inferred_length ex_primary = 1" "r_multimap ex_primary = None" "r_pos ex_primary = 0"
  by (simp_all add: ex_primary_def r_length_def)

lemma ln_gt_69:
  assumes "3 \<le> x"
  shows "69 / 100 < ln (x :: real)"
proof -
  have "exp (69 / 100) < exp (1 :: real)" by simp
  also have "\<dots> \<le> 3" by (rule exp_le)
  finally have "exp (69 / 100) < x" using assms by linarith
  moreover have "0 < x" using assms by linarith
  ultimately have "ln (exp (69 / 100)) < ln x"
    by (subst ln_less_cancel_iff) simp_all
  then show ?thesis by (simp only: ln_exp)
qed

lemma dgt_69: "3 \<le> x \<Longrightarrow> dgt (Num (ln x)) (Num (69 / 100))"
  using ln_gt_69[of x] by (simp add: dgt_def)

lemmas ln_form = log_add_exp_ln dadd_ln dsub_ln dgt_ln dadd_zero_left

lemma ex_read_first:
  "eval_read defaults ex_refs ''AAAA'' ''GAAA'' 1 True (Num (ln (1 / 12))) (Num (ln (1 / 12))) ex_primary
     (None, \<lparr>a_ref = Num 0, a_alt = Num 0, a_het = Num 0, a_ref_count = 0, a_alt_count = 0\<rparr>) =
   Some (Some (Num (ln (14 / 15)), Num (ln (10027 / 299970))),
         \<lparr>a_ref = Num (ln (10027 / 599940)), a_alt = Num (ln (270001 / 3599640)),
          a_het = Num (ln (610009 / 8999100)), a_ref_count = 0, a_alt_count = 1\<rparr>)"
  by (simp add: eval_read_def ex_flags ex_read_fields is_match_ex no_match_ex matrix_ex elsewhere_ex
      ex_window_ref ex_window_alt ex_omega ex_consts ln_form dgt_69 defaults_def Let_def
      del: dadd.simps(1))

lemma ex_read_second:
  "eval_read defaults ex_refs ''AAAA'' ''AACA'' 3 False (Num (ln (1 / 12))) (Num (ln (1 / 12))) ex_primary
     (Some (Num (ln (14 / 15)), Num (ln (10027 / 299970))),
      \<lparr>a_ref = Num (ln (10027 / 599940)), a_alt = Num 0, a_het = Num 0, a_ref_count = 0, a_alt_count = 0\<rparr>) =
   Some (Some (Num (ln (14 / 15)), Num (ln (10027 / 299970))),
         \<lparr>a_ref = Num (ln (10027 / 599940)), a_alt = Num (ln (10027 / 3599640)),
          a_het = Num (ln (10027 / 3599640)), a_ref_count = 0, a_alt_count = 0\<rparr>)"
  by (simp add: eval_read_def ex_flags ex_read_fields is_match_ex no_match_ex matrix_ex elsewhere_ex
      ex_window_ref ex_window_alt ex_omega ex_consts ln_form dgt_69 defaults_def Let_def
      del: dadd.simps(1))

lemma ex_read_third:
  "eval_read defaults ex_refs ''AAAA'' ''GACA'' 1 False (Num (ln (1 / 12))) (Num (ln (1 / 12))) ex_primary
     (Some (Num (ln (14 / 15)), Num (ln (10027 / 299970))),
      \<lparr>a_ref = Num (ln (10027 / 599940)), a_alt = Num 0, a_het = Num 0, a_ref_count = 0, a_alt_count = 0\<rparr>) =
   Some (Some (Num (ln (14 / 15)), Num (ln (10027 / 299970))),
         \<lparr>a_ref = Num (ln (10027 / 599940)), a_alt = Num (ln (270001 / 3599640)),
          a_het = Num (ln (610009 / 8999100)), a_ref_count = 0, a_alt_count = 1\<rparr>)"
  by (simp add: eval_read_def ex_flags ex_read_fields is_match_ex no_match_ex matrix_ex elsewhere_ex
      ex_window_ref ex_window_alt ex_omega ex_consts ln_form dgt_69 defaults_def Let_def
      del: dadd.simps(1))

lemma ex_find:
  "find_variant [ex_snp_G] ex_snp_G = 0" "find_variant [ex_snp_C] ex_snp_G = - 1"
  "find_variant [ex_snp_G, ex_snp_C] ex_snp_G = 0"
  "find_variant [ex_snp_G] ex_snp_C = - 1" "find_variant [ex_snp_C] ex_snp_C = 0"
  "find_variant [ex_snp_G, ex_snp_C] ex_snp_C = 1"
  by code_simp+

lemma ex_chr_C: "v_chr ex_snp_C = ''chr1''" "v_pos ex_snp_G = 1" "v_pos ex_snp_C = 3"
  by (simp_all add: ex_snp_C_def ex_snp_G_def)

lemma ex_eval_combos:
  "eval_combos defaults ex_refs ''AAAA'' (Num (ln (1 / 12))) (Num (ln (1 / 12))) [ex_primary] True [None]
     (Num 0) [[ex_snp_G], [ex_snp_C], [ex_snp_G, ex_snp_C]] =
   Some (Num (ln (10027 / 599940)),
     [(Num (ln (270001 / 3599640)), Num (ln (610009 / 8999100)), 0, 1),
      (Num (ln (10027 / 3599640)), Num (ln (10027 / 3599640)), 0, 0),
      (Num (ln (270001 / 3599640)), Num (ln (610009 / 8999100)), 0, 1)])"
  by (simp add: ex_altseqs ex_chr_C ex_read_first ex_read_second ex_read_third)

lemma ex_line_prob:
  "o_prob (variant_line [ex_snp_G, ex_snp_C] [[ex_snp_G], [ex_snp_C], [ex_snp_G, ex_snp_C]]
     (Num (ln (10027 / 599940)))
     [(Num (ln (270001 / 3599640)), Num (ln (610009 / 8999100)), 0, 1),
      (Num (ln (10027 / 3599640)), Num (ln (10027 / 3599640)), 0, 0),
      (Num (ln (270001 / 3599640)), Num (ln (610009 / 8999100)), 0, 1)] 0) =
   Num (ln (5140046 / 2870833) / ln 10)"
  by (simp add: variant_line_def variant_marginal_def ex_find total_of_def print_variant_def
      times_M_1_LN10_def M_LN10_def ln_form del: dadd.simps(1))

lemma max_count_ge:
  "m \<le> foldl (\<lambda>m (alt, het, rc, ac). if m < ac then ac else m) (m :: int) results"
proof (induction results arbitrary: m)
  case Nil
  show ?case by simp
next
  case (Cons r results)
  obtain alt het rc ac where r: "r = (alt, het, rc, ac)" by (cases r) auto
  show ?case
    using Cons[of "if m < ac then ac else m"] by (simp add: r split: if_splits)
qed

lemma max_ref_count_of_nonneg: "0 \<le> max_ref_count_of results"
proof -
  have "m \<le> foldl (\<lambda>m (alt, het, rc, ac). if m < rc then rc else m) (m :: int) results" for m
  proof (induction results arbitrary: m)
    case Nil
    show ?case by simp
  next
    case (Cons r results)
    obtain alt het rc ac where r: "r = (alt, het, rc, ac)" by (cases r) auto
    show ?case
      using Cons[of "if m < rc then rc else m"] by (simp add: r split: if_splits)
  qed
  then show ?thesis unfolding max_ref_count_of_def by blast
qed

lemma marginal_count_bounds:
  assumes "c \<le> m"
  shows "c \<le> snd (snd (foldl (\<lambda>(has_alt, not_alt, has_alt_count) (var_combo, alt, het, rc, ac).
              if find_variant var_combo v \<noteq> - 1
              then ((if deq has_alt (Num 0) then log_add_exp alt het
                     else log_add_exp has_alt (log_add_exp alt het)),
                    not_alt,
                    (if has_alt_count < ac then ac else has_alt_count))
              else (has_alt, log_add_exp not_alt (log_add_exp alt het), has_alt_count))
       (h, n, c) (zip combos results))) \<and>
     snd (snd (foldl (\<lambda>(has_alt, not_alt, has_alt_count) (var_combo, alt, het, rc, ac).
              if find_variant var_combo v \<noteq> - 1
              then ((if deq has_alt (Num 0) then log_add_exp alt het
                     else log_add_exp has_alt (log_add_exp alt het)),
                    not_alt,
                    (if has_alt_count < ac then ac else has_alt_count))
              else (has_alt, log_add_exp not_alt (log_add_exp alt het), has_alt_count))
       (h, n, c) (zip combos results)))
     \<le> foldl (\<lambda>m (alt, het, rc, ac). if m < ac then ac else m) (m :: int) results"
  using assms
proof (induction results arbitrary: combos h n c m)
  case Nil
  then show ?case by simp
next
  case (Cons r results)
  obtain alt het rc ac where r: "r = (alt, het, rc, ac)" by (cases r) auto
  show ?case
  proof (cases combos)
    case Nil
    have "m \<le> foldl (\<lambda>m (alt, het, rc, ac). if m < ac then ac else m) m (r # results)"
      by (rule max_count_ge)
    then show ?thesis using Cons.prems Nil by simp
  next
    case (Cons combo combos')
    let ?m' = "if m < ac then ac else m"
    show ?thesis
    proof (cases "find_variant combo v \<noteq> - 1")
      case True
      let ?c' = "if c < ac then ac else c"
      have le: "?c' \<le> ?m'" using Cons.prems by simp
      have "c \<le> ?c'" by simp
      then show ?thesis
        using Cons.IH[OF le, of "if deq h (Num 0) then log_add_exp alt het
                     else log_add_exp h (log_add_exp alt het)" n combos'] True
        unfolding Cons r by simp
    next
      case False
      have le: "c \<le> ?m'" using Cons.prems by simp
      show ?thesis
        using Cons.IH[OF le, of h "log_add_exp n (log_add_exp alt het)" combos'] False
        unfolding Cons r by simp
    qed
  qed
qed

lemma has_alt_count_bounds:
  "0 \<le> o_has_alt_count (variant_line var_set var_combo ref_acc results i) \<and>
   o_has_alt_count (variant_line var_set var_combo ref_acc results i)
     \<le> o_read_count (variant_line var_set var_combo ref_acc results i)"
proof -
  obtain has_alt not_alt has_alt_count where
    m: "variant_marginal (var_set ! i) ref_acc (zip var_combo results) = (has_alt, not_alt, has_alt_count)"
    by (cases "variant_marginal (var_set ! i) ref_acc (zip var_combo results)") auto
  have "0 \<le> has_alt_count \<and> has_alt_count \<le> max_alt_count_of results"
    using marginal_count_bounds[of 0 0 "var_set ! i" "Num 0" ref_acc var_combo results] m
    unfolding variant_marginal_def max_alt_count_of_def by simp
  then show ?thesis
    using max_ref_count_of_nonneg[of results]
    by (simp add: variant_line_def m print_variant_def)
qed

lemma ex_eval_pair:
  "evaluate_variants defaults (\<lambda>region. [ex_primary]) ex_refs [ex_snp_G, ex_snp_C] =
     Some (Some (map (variant_line [ex_snp_G, ex_snp_C] [[ex_snp_G], [ex_snp_C], [ex_snp_G, ex_snp_C]]
       (Num (ln (10027 / 599940)))
       [(Num (ln (270001 / 3599640)), Num (ln (610009 / 8999100)), 0, 1),
        (Num (ln (10027 / 3599640)), Num (ln (10027 / 3599640)), 0, 0),
        (Num (ln (270001 / 3599640)), Num (ln (610009 / 8999100)), 0, 1)]) [0, 1]))"
  by (simp add: evaluate_variants_def ex_powerset_2 ex_parse_2 ex_chr ex_priors ex_eval_combos Let_def
      del: eval_combos.simps)

text \<open>
  C2. The set of the SNPs \<open>A>G\<close> at position 1 and \<open>A>C\<close> at position 3 of \<open>chr1 = AAAA\<close>,
  with one read \<open>G\<close> of base quality Phred 10 at position 1: the line of the first
  variant has \<open>prob = log10 (5140046 / 2870833)\<close>, about 0.25, which is positive.
  \<open>total\<close> holds the last combination only, and \<open>has_alt\<close> adds the first one to it.
  The other half of the claim holds on every line: \<open>0 \<le> has_alt_count \<le> read_count\<close>.
\<close>

theorem prob_positive_on_pair:
  "(\<exists>l1 l2. evaluate_variants defaults (\<lambda>region. [ex_primary]) ex_refs [ex_snp_G, ex_snp_C] =
       Some (Some [l1, l2]) \<and>
     line_variant l1 = ex_snp_G \<and>
     o_prob l1 = Num (ln (5140046 / 2870833) / ln 10) \<and>
     dgt (o_prob l1) (Num 0)) \<and>
   0 \<le> o_has_alt_count (variant_line var_set var_combo ref_acc results i) \<and>
   o_has_alt_count (variant_line var_set var_combo ref_acc results i)
     \<le> o_read_count (variant_line var_set var_combo ref_acc results i)"
proof -
  have pos: "0 < ln (5140046 / 2870833 :: real) / ln 10"
    by (intro divide_pos_pos ln_gt_zero) simp_all
  have "\<exists>l1 l2. evaluate_variants defaults (\<lambda>region. [ex_primary]) ex_refs [ex_snp_G, ex_snp_C] =
       Some (Some [l1, l2]) \<and>
     line_variant l1 = ex_snp_G \<and>
     o_prob l1 = Num (ln (5140046 / 2870833) / ln 10) \<and>
     dgt (o_prob l1) (Num 0)"
    using ex_eval_pair ex_line_prob pos
    by (simp add: line_variant_variant_line dgt_def)
  then show ?thesis
    using has_alt_count_bounds[of var_set var_combo ref_acc results i] by blast
qed

end
